theory Spec2Isabelle
  imports Complex_Main "HOL-Library.AList" "HOL-Library.Word"
begin

section \<open>Distributed cache: consistent-hash ring, bounded shards, invalidation bus\<close>

text \<open>
  A shallow embedding of \<^verbatim>\<open>distributed_cache_system.py\<close>.

  \<^item> A Python \<^verbatim>\<open>dict\<close> is an association list in insertion order with unique keys:
    storing under a key that is present replaces the value in place, storing under a
    new key appends, deleting removes the pair. These are \<open>AList.update\<close> and
    \<open>AList.delete\<close>. The order matters, because \<^verbatim>\<open>min(d, key=d.get)\<close> returns
    the first minimal key in iteration order.
  \<^item> \<^verbatim>\<open>time.time()\<close> is an input: every operation takes the clock readings it makes
    as arguments. Timestamps are reals; rounding of floats is not modelled.
  \<^item> A raised exception is a value \<open>Inl e\<close>; a normal return is \<open>Inr\<close>.
  \<^item> Objects that are shared (the shards held by the ring and by the bus) live in
    a store from references to shard states.
\<close>

subsection \<open>Python helpers\<close>

datatype py_error = ValueError | KeyError | IndexError

text \<open>\<^verbatim>\<open>key in d\<close>.\<close>

definition has_key :: "('k \<times> 'v) list \<Rightarrow> 'k \<Rightarrow> bool" where
  "has_key d k = (k \<in> fst ` set d)"

text \<open>\<^verbatim>\<open>if key in d: del d[key]\<close>.\<close>

definition del_if_in :: "('k \<times> 'v) list \<Rightarrow> 'k \<Rightarrow> ('k \<times> 'v) list" where
  "del_if_in d k = (if has_key d k then AList.delete k d else d)"

text \<open>
  \<^verbatim>\<open>min(d, key=d.get)\<close>: the scan keeps the first key seen and replaces it only by a
  key whose value is strictly smaller; on an empty dict \<^verbatim>\<open>min\<close> raises ValueError.
\<close>

fun min_scan :: "('k \<times> 'v::linorder) \<Rightarrow> ('k \<times> 'v) list \<Rightarrow> 'k" where
  "min_scan best [] = fst best"
| "min_scan best (p # ps) = (if snd p < snd best then min_scan p ps else min_scan best ps)"

definition py_min_key :: "('k \<times> 'v::linorder) list \<Rightarrow> py_error + 'k" where
  "py_min_key d = (case d of [] \<Rightarrow> Inl ValueError | p # ps \<Rightarrow> Inr (min_scan p ps))"

subsection \<open>CacheNode\<close>

record CacheNode =
  node_id :: string
  max_size :: int
  cache :: "(string \<times> string) list"
  eviction_policy :: string
  access_times :: "(string \<times> real) list"
  access_counts :: "(string \<times> int) list"
  ttl :: "(string \<times> real) list"

definition CacheNode_init :: "string \<Rightarrow> string \<Rightarrow> int \<Rightarrow> CacheNode" where
  "CacheNode_init nid policy msize =
     \<lparr>node_id = nid, max_size = msize, cache = [], eviction_policy = policy,
      access_times = [], access_counts = [], ttl = []\<rparr>"

definition CacheNode_invalidate :: "CacheNode \<Rightarrow> string \<Rightarrow> CacheNode" where
  "CacheNode_invalidate n key =
     (if has_key (cache n) key then
        n\<lparr>cache := AList.delete key (cache n),
          access_times := del_if_in (access_times n) key,
          access_counts := del_if_in (access_counts n) key,
          ttl := del_if_in (ttl n) key\<rparr>
      else n)"

text \<open>
  \<^verbatim>\<open>_evict\<close>. Only the TTL branch reads the clock (\<open>current_time\<close>); it first
  collects the expired keys and then invalidates them one by one.
\<close>

definition CacheNode_evict :: "CacheNode \<Rightarrow> real \<Rightarrow> py_error + CacheNode" where
  "CacheNode_evict n current_time =
     (if eviction_policy n = ''LRU'' then
        (case py_min_key (access_times n) of
           Inl e \<Rightarrow> Inl e
         | Inr key_to_evict \<Rightarrow> Inr (CacheNode_invalidate n key_to_evict))
      else if eviction_policy n = ''LFU'' then
        (case py_min_key (access_counts n) of
           Inl e \<Rightarrow> Inl e
         | Inr key_to_evict \<Rightarrow> Inr (CacheNode_invalidate n key_to_evict))
      else if eviction_policy n = ''TTL'' then
        (let expired_keys = map fst (filter (\<lambda>(key, expiry). expiry \<le> current_time) (ttl n))
         in Inr (foldl CacheNode_invalidate n expired_keys))
      else Inr n)"

text \<open>
  \<^verbatim>\<open>get\<close> returns the new state and the value (\<open>None\<close> for Python's \<^verbatim>\<open>None\<close>). It
  reads the clock at most once: in the TTL check or in the LRU update.
  \<^verbatim>\<open>self.access_counts[key] += 1\<close> raises KeyError when the key has no counter.
\<close>

definition CacheNode_get :: "CacheNode \<Rightarrow> string \<Rightarrow> real \<Rightarrow> py_error + (CacheNode \<times> string option)" where
  "CacheNode_get n key now =
     (if has_key (cache n) key then
        (if eviction_policy n = ''TTL'' \<and>
            (case map_of (ttl n) key of None \<Rightarrow> False | Some expiry \<Rightarrow> now > expiry)
         then Inr (CacheNode_invalidate n key, None)
         else if eviction_policy n = ''LRU'' then
           Inr (n\<lparr>access_times := AList.update key now (access_times n)\<rparr>, map_of (cache n) key)
         else if eviction_policy n = ''LFU'' then
           (case map_of (access_counts n) key of
              None \<Rightarrow> Inl KeyError
            | Some c \<Rightarrow>
                Inr (n\<lparr>access_counts := AList.update key (c + 1) (access_counts n)\<rparr>,
                     map_of (cache n) key))
         else Inr (n, map_of (cache n) key))
      else Inr (n, None))"

text \<open>
  \<^verbatim>\<open>set\<close> reads the clock up to twice: \<open>t_evict\<close> inside \<^verbatim>\<open>_evict\<close> and \<open>now\<close> when
  it writes the metadata. The test before \<^verbatim>\<open>_evict\<close> looks at the size only.
\<close>

definition set_metadata :: "CacheNode \<Rightarrow> string \<Rightarrow> real option \<Rightarrow> real \<Rightarrow> CacheNode" where
  "set_metadata n key ttl_arg now =
     (if eviction_policy n = ''LRU'' then
        n\<lparr>access_times := AList.update key now (access_times n)\<rparr>
      else if eviction_policy n = ''LFU'' then
        n\<lparr>access_counts := AList.update key 1 (access_counts n)\<rparr>
      else if eviction_policy n = ''TTL'' then
        (case ttl_arg of
           None \<Rightarrow> n
         | Some d \<Rightarrow> n\<lparr>ttl := AList.update key (now + d) (ttl n)\<rparr>)
      else n)"

definition CacheNode_set ::
  "CacheNode \<Rightarrow> string \<Rightarrow> string \<Rightarrow> real option \<Rightarrow> real \<Rightarrow> real \<Rightarrow> py_error + CacheNode" where
  "CacheNode_set n key val ttl_arg t_evict now =
     (case (if int (length (cache n)) \<ge> max_size n then CacheNode_evict n t_evict else Inr n) of
        Inl e \<Rightarrow> Inl e
      | Inr n1 \<Rightarrow>
          Inr (set_metadata (n1\<lparr>cache := AList.update key val (cache n1)\<rparr>) key ttl_arg now))"

subsection \<open>Sequences of public operations on one shard\<close>

text \<open>
  A call of a public method with its arguments and the clock readings it makes. A run
  stops at the first exception, as the caller of the raising method would.
\<close>

datatype node_op =
    OpGet string real
  | OpSet string string "real option" real real
  | OpInvalidate string

fun apply_op :: "CacheNode \<Rightarrow> node_op \<Rightarrow> py_error + CacheNode" where
  "apply_op n (OpGet key now) =
     (case CacheNode_get n key now of Inl e \<Rightarrow> Inl e | Inr (n', r) \<Rightarrow> Inr n')"
| "apply_op n (OpSet key val ttl_arg t_evict now) = CacheNode_set n key val ttl_arg t_evict now"
| "apply_op n (OpInvalidate key) = Inr (CacheNode_invalidate n key)"

fun run_ops :: "CacheNode \<Rightarrow> node_op list \<Rightarrow> py_error + CacheNode" where
  "run_ops n [] = Inr n"
| "run_ops n (x # xs) = (case apply_op n x of Inl e \<Rightarrow> Inl e | Inr n' \<Rightarrow> run_ops n' xs)"

text \<open>
  The invariant of the states a shard reaches from its constructor through its public
  methods: every dict has unique keys; the LRU timestamps (the LFU counters) cover
  exactly the stored keys under that policy and are empty under any other; expiry
  timestamps exist only under TTL and only for stored keys.
\<close>

definition node_inv :: "CacheNode \<Rightarrow> bool" where
  "node_inv n =
     (distinct (map fst (cache n)) \<and> distinct (map fst (access_times n)) \<and>
      distinct (map fst (access_counts n)) \<and> distinct (map fst (ttl n)) \<and>
      fst ` set (access_times n) =
        (if eviction_policy n = ''LRU'' then fst ` set (cache n) else {}) \<and>
      fst ` set (access_counts n) =
        (if eviction_policy n = ''LFU'' then fst ` set (cache n) else {}) \<and>
      fst ` set (ttl n) \<subseteq>
        (if eviction_policy n = ''TTL'' then fst ` set (cache n) else {}))"

text \<open>
  A shard with policy LRU or LFU and positive capacity that holds at most its capacity.
\<close>

definition bounded_node :: "CacheNode \<Rightarrow> bool" where
  "bounded_node n = (node_inv n \<and> (eviction_policy n = ''LRU'' \<or> eviction_policy n = ''LFU'') \<and>
      0 < max_size n \<and> int (length (cache n)) \<le> max_size n)"

text \<open>An entry is expired at a clock reading when it has an expiry at or before it.\<close>

definition expired :: "CacheNode \<Rightarrow> real \<Rightarrow> string \<Rightarrow> bool" where
  "expired n current_time key =
     (case map_of (ttl n) key of None \<Rightarrow> False | Some expiry \<Rightarrow> expiry \<le> current_time)"

subsection \<open>Example states\<close>

text \<open>
  States used to instantiate the theorems: an LRU shard of capacity 2 after
  \<^verbatim>\<open>set(A,1)\<close> at 1, \<^verbatim>\<open>set(B,2)\<close> at 2, \<^verbatim>\<open>get(A)\<close> at 3; an LFU shard of capacity 2
  after \<^verbatim>\<open>set(A,1)\<close> and \<^verbatim>\<open>set(B,2)\<close>; a full TTL shard of capacity 3
  in which only A and B carry an expiry; a TTL shard holding one key that expires at 5.
\<close>

definition lru_example :: CacheNode where
  "lru_example =
     \<lparr>node_id = ''node2'', max_size = 2, cache = [(''A'', ''1''), (''B'', ''2'')],
      eviction_policy = ''LRU'', access_times = [(''A'', 3), (''B'', 2)],
      access_counts = [], ttl = []\<rparr>"

definition lfu_example :: CacheNode where
  "lfu_example =
     \<lparr>node_id = ''node3'', max_size = 2, cache = [(''A'', ''1''), (''B'', ''2'')],
      eviction_policy = ''LFU'', access_times = [], access_counts = [(''A'', 1), (''B'', 1)],
      ttl = []\<rparr>"

definition ttl_example :: CacheNode where
  "ttl_example =
     \<lparr>node_id = ''node1'', max_size = 3,
      cache = [(''A'', ''1''), (''B'', ''2''), (''C'', ''3'')],
      eviction_policy = ''TTL'', access_times = [], access_counts = [],
      ttl = [(''A'', 5), (''B'', 10)]\<rparr>"

definition ttl_single_example :: CacheNode where
  "ttl_single_example =
     \<lparr>node_id = ''node1'', max_size = 10, cache = [(''k'', ''v'')], eviction_policy = ''TTL'',
      access_times = [], access_counts = [], ttl = [(''k'', 5)]\<rparr>"

subsection \<open>DistributedCache\<close>

text \<open>
  Shards are objects shared between the ring and the bus: a reference is a number and
  the store maps every reference to the state of its shard. \<^verbatim>\<open>hashlib.sha256\<close> is
  a library function outside the repository and is a parameter \<open>sha256\<close> giving the
  256-bit digest of a string; \<^verbatim>\<open>_hash\<close> reads the digest as an unsigned integer.
\<close>

type_synonym ref = nat
type_synonym store = "ref \<Rightarrow> CacheNode"
type_synonym digest = "string \<Rightarrow> 256 word"

record DistributedCache =
  nodes :: "ref list"
  node_map :: "(int \<times> ref) list"

definition DistributedCache_hash :: "digest \<Rightarrow> string \<Rightarrow> int" where
  "DistributedCache_hash sha256 key = uint (sha256 key)"

text \<open>\<^verbatim>\<open>str(i)\<close> for a natural number: its decimal digits.\<close>

fun py_str :: "nat \<Rightarrow> string" where
  "py_str i =
     (if i < 10 then [''0123456789'' ! i] else py_str (i div 10) @ [''0123456789'' ! (i mod 10)])"

text \<open>The names \<^verbatim>\<open>f"{node.node_id}_{i}"\<close> for \<^verbatim>\<open>i in range(3)\<close>.\<close>

definition virtual_names :: "string \<Rightarrow> string list" where
  "virtual_names nid = map (\<lambda>i. nid @ ''_'' @ py_str i) [0..<3]"

text \<open>
  \<^verbatim>\<open>_create_node_map\<close>: the ring is a dict keyed by hash value, so an assignment
  under a hash that is already a key replaces the shard stored there.
\<close>

definition DistributedCache_create_node_map ::
  "digest \<Rightarrow> store \<Rightarrow> ref list \<Rightarrow> (int \<times> ref) list" where
  "DistributedCache_create_node_map sha256 st ns =
     foldl (\<lambda>nm node.
              foldl (\<lambda>nm' name. AList.update (DistributedCache_hash sha256 name) node nm')
                    nm (virtual_names (node_id (st node))))
           [] ns"

definition DistributedCache_init :: "digest \<Rightarrow> store \<Rightarrow> ref list \<Rightarrow> DistributedCache" where
  "DistributedCache_init sha256 st ns =
     \<lparr>nodes = ns, node_map = DistributedCache_create_node_map sha256 st ns\<rparr>"

text \<open>\<^verbatim>\<open>d[k]\<close> raises KeyError on a missing key.\<close>

definition dict_getitem :: "('k \<times> 'v) list \<Rightarrow> 'k \<Rightarrow> py_error + 'v" where
  "dict_getitem d k = (case map_of d k of None \<Rightarrow> Inl KeyError | Some v \<Rightarrow> Inr v)"

text \<open>
  \<^verbatim>\<open>_get_node\<close>: the loop over the sorted hash values returns at the first one that
  is at least the key's hash; after the loop \<^verbatim>\<open>sorted_keys[0]\<close> raises IndexError on an
  empty ring.
\<close>

fun get_node_scan :: "(int \<times> ref) list \<Rightarrow> int \<Rightarrow> int list \<Rightarrow> (py_error + ref) option" where
  "get_node_scan nm hash_key [] = None"
| "get_node_scan nm hash_key (node_key # rest) =
     (if hash_key \<le> node_key then Some (dict_getitem nm node_key)
      else get_node_scan nm hash_key rest)"

definition DistributedCache_get_node :: "digest \<Rightarrow> DistributedCache \<Rightarrow> string \<Rightarrow> py_error + ref" where
  "DistributedCache_get_node sha256 dc key =
     (let hash_key = DistributedCache_hash sha256 key;
          sorted_keys = sort (map fst (node_map dc))
      in case get_node_scan (node_map dc) hash_key sorted_keys of
           Some r \<Rightarrow> r
         | None \<Rightarrow>
             (case sorted_keys of
                [] \<Rightarrow> Inl IndexError
              | k0 # _ \<Rightarrow> dict_getitem (node_map dc) k0))"

definition DistributedCache_get ::
  "digest \<Rightarrow> DistributedCache \<Rightarrow> store \<Rightarrow> string \<Rightarrow> real \<Rightarrow> py_error + (store \<times> string option)" where
  "DistributedCache_get sha256 dc st key now =
     (case DistributedCache_get_node sha256 dc key of
        Inl e \<Rightarrow> Inl e
      | Inr node \<Rightarrow>
          (case CacheNode_get (st node) key now of
             Inl e \<Rightarrow> Inl e
           | Inr (n', r) \<Rightarrow> Inr (st(node := n'), r)))"

definition DistributedCache_set ::
  "digest \<Rightarrow> DistributedCache \<Rightarrow> store \<Rightarrow> string \<Rightarrow> string \<Rightarrow> real option \<Rightarrow> real \<Rightarrow> real \<Rightarrow>
   py_error + store" where
  "DistributedCache_set sha256 dc st key val ttl_arg t_evict now =
     (case DistributedCache_get_node sha256 dc key of
        Inl e \<Rightarrow> Inl e
      | Inr node \<Rightarrow>
          (case CacheNode_set (st node) key val ttl_arg t_evict now of
             Inl e \<Rightarrow> Inl e
           | Inr n' \<Rightarrow> Inr (st(node := n'))))"

definition DistributedCache_invalidate ::
  "digest \<Rightarrow> DistributedCache \<Rightarrow> store \<Rightarrow> string \<Rightarrow> py_error + store" where
  "DistributedCache_invalidate sha256 dc st key =
     (case DistributedCache_get_node sha256 dc key of
        Inl e \<Rightarrow> Inl e
      | Inr node \<Rightarrow> Inr (st(node := CacheNode_invalidate (st node) key)))"

subsection \<open>PubSubSystem\<close>

record PubSubSystem =
  subscribers :: "(string \<times> ref list) list"

definition PubSubSystem_init :: PubSubSystem where
  "PubSubSystem_init = \<lparr>subscribers = []\<rparr>"

text \<open>
  \<^verbatim>\<open>subscribe\<close>: a channel that is not a key gets the empty list first, then the
  shard is appended to the channel's list.
\<close>

definition PubSubSystem_subscribe :: "PubSubSystem \<Rightarrow> string \<Rightarrow> ref \<Rightarrow> PubSubSystem" where
  "PubSubSystem_subscribe ps channel node =
     (let subs = (if \<not> has_key (subscribers ps) channel
                  then AList.update channel [] (subscribers ps)
                  else subscribers ps)
      in ps\<lparr>subscribers :=
              AList.map_entry channel (\<lambda>l. l @ [node]) subs\<rparr>)"

text \<open>
  \<^verbatim>\<open>publish\<close> acts on the shards only through the calls \<^verbatim>\<open>node.invalidate(message)\<close> of
  its loop. To state which calls it makes, the store is paired with the sequence of
  these calls so far: a call on a shard updates the shard in the store and appends the
  pair of the shard and the key to the sequence.
\<close>

type_synonym calls = "(ref \<times> string) list"

fun invalidate_call :: "ref \<Rightarrow> string \<Rightarrow> store \<times> calls \<Rightarrow> store \<times> calls" where
  "invalidate_call node key (st, cs) =
     (st(node := CacheNode_invalidate (st node) key), cs @ [(node, key)])"

text \<open>\<^verbatim>\<open>publish\<close>: the loop over the channel's list, in list order.\<close>

fun publish_loop :: "ref list \<Rightarrow> string \<Rightarrow> store \<times> calls \<Rightarrow> store \<times> calls" where
  "publish_loop [] message w = w"
| "publish_loop (node # rest) message w = publish_loop rest message (invalidate_call node message w)"

definition PubSubSystem_publish ::
  "PubSubSystem \<Rightarrow> string \<Rightarrow> string \<Rightarrow> store \<times> calls \<Rightarrow> store \<times> calls" where
  "PubSubSystem_publish ps channel message w =
     (case map_of (subscribers ps) channel of
        None \<Rightarrow> w
      | Some ns \<Rightarrow> publish_loop ns message w)"

text \<open>The list a channel holds (empty for a channel that is not a key).\<close>

definition subscribers_of :: "PubSubSystem \<Rightarrow> string \<Rightarrow> ref list" where
  "subscribers_of ps channel = (case map_of (subscribers ps) channel of None \<Rightarrow> [] | Some ns \<Rightarrow> ns)"

subsection \<open>The ring as a sequence of insertions\<close>

text \<open>
  The (hash, shard) pairs that \<^verbatim>\<open>_create_node_map\<close> assigns, in the order of its two loops,
  and the assignment \<^verbatim>\<open>node_map[hash_key] = node\<close> of one pair.
\<close>

definition virtual_points :: "digest \<Rightarrow> store \<Rightarrow> ref list \<Rightarrow> (int \<times> ref) list" where
  "virtual_points sha256 st ns =
     concat (map (\<lambda>node. map (\<lambda>name. (DistributedCache_hash sha256 name, node))
                           (virtual_names (node_id (st node)))) ns)"

abbreviation insert_point :: "(int \<times> ref) list \<Rightarrow> int \<times> ref \<Rightarrow> (int \<times> ref) list" where
  "insert_point nm p \<equiv> AList.update (fst p) (snd p) nm"

subsection \<open>Example ring, digest, bus and store\<close>

text \<open>
  A ring with two entries (stored in insertion order, not sorted); a stand-in for the
  digest that sends the key \<^verbatim>\<open>abc\<close> to 15 and every other string to 25; a bus on which
  shard 1 subscribed twice and shard 2 once to the channel \<^verbatim>\<open>inv\<close>; a store in which
  every shard holds the key \<^verbatim>\<open>k\<close>.
\<close>

definition ring_example :: DistributedCache where
  "ring_example = \<lparr>nodes = [0, 1], node_map = [(20, 1), (10, 0)]\<rparr>"

definition digest_example :: digest where
  "digest_example = (\<lambda>s. if s = ''abc'' then 15 else 25)"

definition pubsub_example :: PubSubSystem where
  "pubsub_example =
     PubSubSystem_subscribe
       (PubSubSystem_subscribe (PubSubSystem_subscribe PubSubSystem_init ''inv'' 1) ''inv'' 2)
       ''inv'' 1"

definition store_example :: store where
  "store_example = (\<lambda>r. ttl_single_example)"

section \<open>Properties\<close>

subsection \<open>Dicts\<close>

lemma del_if_in_eq: "del_if_in d k = AList.delete k d"
  by (simp add: del_if_in_def has_key_def)

lemma dom_delete: "fst ` set (AList.delete k d) = fst ` set d - {k}"
  by (auto simp: AList.delete_eq image_iff)

lemma length_delete: "distinct (map fst d) \<Longrightarrow> k \<in> fst ` set d \<Longrightarrow> Suc (length (AList.delete k d)) = length d"
  by (induction d) (auto simp: image_iff)

lemma min_scan_spec:
  "\<exists>v. (min_scan best ps, v) \<in> set (best # ps) \<and> (\<forall>p \<in> set (best # ps). v \<le> snd p)"
proof (induction ps arbitrary: best)
  case Nil
  show ?case by (cases best) auto
next
  case (Cons p ps)
  show ?case
  proof (cases "snd p < snd best")
    case True
    from Cons.IH[of p] obtain v where "(min_scan p ps, v) \<in> set (p # ps)" "\<forall>q \<in> set (p # ps). v \<le> snd q"
      by blast
    with True show ?thesis by (intro exI[of _ v]) auto
  next
    case False
    from Cons.IH[of best] obtain v where "(min_scan best ps, v) \<in> set (best # ps)" "\<forall>q \<in> set (best # ps). v \<le> snd q"
      by blast
    with False show ?thesis by (intro exI[of _ v]) auto
  qed
qed

lemma py_min_key_Nil: "py_min_key [] = Inl ValueError"
  by (simp add: py_min_key_def)

lemma py_min_key_spec:
  assumes "d \<noteq> []"
  shows "\<exists>k v. py_min_key d = Inr k \<and> (k, v) \<in> set d \<and> (\<forall>p \<in> set d. v \<le> snd p)"
proof (cases d)
  case Nil
  with assms show ?thesis by simp
next
  case (Cons p ps)
  then show ?thesis using min_scan_spec[of p ps] by (auto simp: py_min_key_def)
qed

lemma min_scan_split:
  "(min_scan best ps = fst best \<and> (\<forall>p \<in> set ps. snd best \<le> snd p)) \<or>
   (\<exists>pre v post. ps = pre @ (min_scan best ps, v) # post \<and> v < snd best \<and>
      (\<forall>p \<in> set pre. v < snd p) \<and> (\<forall>p \<in> set post. v \<le> snd p))"
proof (induction ps arbitrary: best)
  case Nil
  show ?case by simp
next
  case (Cons p ps)
  show ?case
  proof (cases "snd p < snd best")
    case True
    from Cons.IH[of p] show ?thesis
    proof
      assume a: "min_scan p ps = fst p \<and> (\<forall>q \<in> set ps. snd p \<le> snd q)"
      have "p # ps = [] @ (min_scan best (p # ps), snd p) # ps"
        using True a by simp
      moreover have "\<forall>q \<in> set ([]::('a \<times> 'b) list). snd p < snd q" by simp
      ultimately have "\<exists>pre v post. p # ps = pre @ (min_scan best (p # ps), v) # post \<and> v < snd best \<and>
        (\<forall>q \<in> set pre. v < snd q) \<and> (\<forall>q \<in> set post. v \<le> snd q)"
        using True a by blast
      then show ?thesis by blast
    next
      assume "\<exists>pre v post. ps = pre @ (min_scan p ps, v) # post \<and> v < snd p \<and>
        (\<forall>q \<in> set pre. v < snd q) \<and> (\<forall>q \<in> set post. v \<le> snd q)"
      then obtain pre v post where ps: "ps = pre @ (min_scan p ps, v) # post" and v: "v < snd p"
        and pre: "\<forall>q \<in> set pre. v < snd q" and post: "\<forall>q \<in> set post. v \<le> snd q"
        by blast
      from ps True have "p # ps = (p # pre) @ (min_scan best (p # ps), v) # post" by simp
      moreover from v True have "v < snd best" by simp
      moreover from v pre have "\<forall>q \<in> set (p # pre). v < snd q" by simp
      ultimately show ?thesis using post by blast
    qed
  next
    case False
    from Cons.IH[of best] show ?thesis
    proof
      assume "min_scan best ps = fst best \<and> (\<forall>q \<in> set ps. snd best \<le> snd q)"
      with False show ?thesis by auto
    next
      assume "\<exists>pre v post. ps = pre @ (min_scan best ps, v) # post \<and> v < snd best \<and>
        (\<forall>q \<in> set pre. v < snd q) \<and> (\<forall>q \<in> set post. v \<le> snd q)"
      then obtain pre v post where ps: "ps = pre @ (min_scan best ps, v) # post" and v: "v < snd best"
        and pre: "\<forall>q \<in> set pre. v < snd q" and post: "\<forall>q \<in> set post. v \<le> snd q"
        by blast
      from ps False have "p # ps = (p # pre) @ (min_scan best (p # ps), v) # post" by simp
      moreover from v False pre have "\<forall>q \<in> set (p # pre). v < snd q" by auto
      ultimately show ?thesis using v post by blast
    qed
  qed
qed

text \<open>min returns the first key, in stored order, whose value is the smallest.\<close>

lemma py_min_key_first:
  assumes "d \<noteq> []"
  shows "\<exists>k v pre post. py_min_key d = Inr k \<and> d = pre @ (k, v) # post \<and>
           (\<forall>p \<in> set pre. v < snd p) \<and> (\<forall>p \<in> set post. v \<le> snd p)"
proof (cases d)
  case Nil
  with assms show ?thesis by simp
next
  case (Cons best ps)
  from min_scan_split[of best ps] show ?thesis
  proof
    assume a: "min_scan best ps = fst best \<and> (\<forall>p \<in> set ps. snd best \<le> snd p)"
    then have "d = [] @ (min_scan best ps, snd best) # ps" using Cons by simp
    moreover have "py_min_key d = Inr (min_scan best ps)" using Cons by (simp add: py_min_key_def)
    ultimately show ?thesis using a by (metis empty_iff list.set(1))
  next
    assume "\<exists>pre v post. ps = pre @ (min_scan best ps, v) # post \<and> v < snd best \<and>
      (\<forall>p \<in> set pre. v < snd p) \<and> (\<forall>p \<in> set post. v \<le> snd p)"
    then obtain pre v post where ps: "ps = pre @ (min_scan best ps, v) # post" and v: "v < snd best"
      and pre: "\<forall>q \<in> set pre. v < snd q" and post: "\<forall>q \<in> set post. v \<le> snd q"
      by blast
    from ps Cons have "d = (best # pre) @ (min_scan best ps, v) # post" by simp
    moreover from v pre have "\<forall>q \<in> set (best # pre). v < snd q" by simp
    moreover have "py_min_key d = Inr (min_scan best ps)" using Cons by (simp add: py_min_key_def)
    ultimately show ?thesis using post by blast
  qed
qed

text \<open>The first minimal key is determined by the dict.\<close>

lemma first_min_unique:
  fixes d :: "('k \<times> 'v::linorder) list"
  assumes "d = pre @ (k, v) # post" "\<forall>p \<in> set pre. v < snd p" "\<forall>p \<in> set post. v \<le> snd p"
    and "d = pre' @ (k', v') # post'" "\<forall>p \<in> set pre'. v' < snd p" "\<forall>p \<in> set post'. v' \<le> snd p"
  shows "pre = pre' \<and> k = k' \<and> v = v' \<and> post = post'"
proof -
  have vv: "v = v'"
  proof -
    have "(k', v') \<in> set d" using assms(4) by simp
    then have "(k', v') \<in> set pre \<or> (k', v') = (k, v) \<or> (k', v') \<in> set post"
      using assms(1) by auto
    then have 1: "v \<le> v'" using assms(2,3) by force
    have "(k, v) \<in> set d" using assms(1) by simp
    then have "(k, v) \<in> set pre' \<or> (k, v) = (k', v') \<or> (k, v) \<in> set post'"
      using assms(4) by auto
    then have "v' \<le> v" using assms(5,6) by force
    with 1 show ?thesis by simp
  qed
  have e: "pre @ (k, v) # post = pre' @ (k', v') # post'" using assms(1,4) by simp
  have "length pre = length pre'"
  proof (rule ccontr)
    assume ne: "length pre \<noteq> length pre'"
    show False
    proof (cases "length pre < length pre'")
      case True
      then have "(pre' @ (k', v') # post') ! length pre = pre' ! length pre"
        by (simp add: nth_append)
      moreover have "(pre @ (k, v) # post) ! length pre = (k, v)" by simp
      ultimately have "(k, v) = pre' ! length pre" using e by simp
      with True have "(k, v) \<in> set pre'" by (metis nth_mem)
      with assms(5) vv show False by force
    next
      case False
      with ne have lt: "length pre' < length pre" by simp
      then have "(pre @ (k, v) # post) ! length pre' = pre ! length pre'"
        by (simp add: nth_append)
      moreover have "(pre' @ (k', v') # post') ! length pre' = (k', v')" by simp
      ultimately have "(k', v') = pre ! length pre'" using e by simp
      with lt have "(k', v') \<in> set pre" by (metis nth_mem)
      with assms(2) vv show False by force
    qed
  qed
  with e show ?thesis by simp
qed

subsection \<open>The shard invariant\<close>

lemma invalidate_inv: "node_inv n \<Longrightarrow> node_inv (CacheNode_invalidate n k)"
  by (auto simp: node_inv_def CacheNode_invalidate_def del_if_in_eq dom_delete distinct_delete split: if_splits)

lemma invalidate_keys: "fst ` set (cache (CacheNode_invalidate n k)) = fst ` set (cache n) - {k}"
  by (auto simp: CacheNode_invalidate_def has_key_def dom_delete)

lemma invalidate_fields: "eviction_policy (CacheNode_invalidate n k) = eviction_policy n"
  "max_size (CacheNode_invalidate n k) = max_size n" "node_id (CacheNode_invalidate n k) = node_id n"
  by (simp_all add: CacheNode_invalidate_def)

lemma invalidate_length:
  "distinct (map fst (cache n)) \<Longrightarrow> k \<in> fst ` set (cache n) \<Longrightarrow>
   Suc (length (cache (CacheNode_invalidate n k))) = length (cache n)"
  by (simp add: CacheNode_invalidate_def has_key_def length_delete)

lemma invalidate_length_le: "length (cache (CacheNode_invalidate n k)) \<le> length (cache n)"
  by (simp add: CacheNode_invalidate_def AList.length_delete_le)

lemma init_inv: "node_inv (CacheNode_init nid p C)"
  by (simp add: node_inv_def CacheNode_init_def)

lemma length_update:
  "length (AList.update k v d) = (if k \<in> fst ` set d then length d else Suc (length d))"
  by (induction d) auto

lemma set_metadata_inv:
  "node_inv n \<Longrightarrow> node_inv (set_metadata (n\<lparr>cache := AList.update k v (cache n)\<rparr>) k ttl_arg now)"
  by (auto simp: node_inv_def set_metadata_def AList.dom_update AList.distinct_update split: option.splits)

lemma set_metadata_fields:
  "cache (set_metadata n k ttl_arg now) = cache n"
  "eviction_policy (set_metadata n k ttl_arg now) = eviction_policy n"
  "max_size (set_metadata n k ttl_arg now) = max_size n"
  "node_id (set_metadata n k ttl_arg now) = node_id n"
  by (simp_all add: set_metadata_def split: option.splits)

lemma evict_lru_lfu:
  assumes inv: "node_inv n" and pol: "eviction_policy n = ''LRU'' \<or> eviction_policy n = ''LFU''"
    and ne: "cache n \<noteq> []"
  shows "\<exists>k. CacheNode_evict n t = Inr (CacheNode_invalidate n k) \<and> k \<in> fst ` set (cache n)"
proof -
  from pol show ?thesis
  proof
    assume p: "eviction_policy n = ''LRU''"
    with inv have eq: "fst ` set (access_times n) = fst ` set (cache n)" by (simp add: node_inv_def)
    with ne have "access_times n \<noteq> []" by auto
    from py_min_key_spec[OF this] obtain k v where "py_min_key (access_times n) = Inr k" "(k, v) \<in> set (access_times n)"
      by blast
    with eq p show ?thesis by (force simp: CacheNode_evict_def)
  next
    assume p: "eviction_policy n = ''LFU''"
    with inv have eq: "fst ` set (access_counts n) = fst ` set (cache n)" by (simp add: node_inv_def)
    with ne have "access_counts n \<noteq> []" by auto
    from py_min_key_spec[OF this] obtain k v where "py_min_key (access_counts n) = Inr k" "(k, v) \<in> set (access_counts n)"
      by blast
    with eq p show ?thesis by (force simp: CacheNode_evict_def)
  qed
qed

lemma foldl_invalidate_inv: "node_inv n \<Longrightarrow> node_inv (foldl CacheNode_invalidate n ks)"
  by (induction ks arbitrary: n) (auto simp: invalidate_inv)

lemma foldl_invalidate_fields:
  "eviction_policy (foldl CacheNode_invalidate n ks) = eviction_policy n"
  "max_size (foldl CacheNode_invalidate n ks) = max_size n"
  "node_id (foldl CacheNode_invalidate n ks) = node_id n"
  by (induction ks arbitrary: n) (auto simp: invalidate_fields)

lemma foldl_invalidate_keys:
  "fst ` set (cache (foldl CacheNode_invalidate n ks)) = fst ` set (cache n) - set ks"
  by (induction ks arbitrary: n) (auto simp: invalidate_keys)

lemma evict_inv: "node_inv n \<Longrightarrow> CacheNode_evict n t = Inr n' \<Longrightarrow> node_inv n'"
  by (auto simp: CacheNode_evict_def invalidate_inv foldl_invalidate_inv split: if_splits sum.splits)

lemma evict_fields:
  assumes "CacheNode_evict n t = Inr n'"
  shows "eviction_policy n' = eviction_policy n" "max_size n' = max_size n" "node_id n' = node_id n"
  using assms
  by (auto simp: CacheNode_evict_def invalidate_fields foldl_invalidate_fields split: if_splits sum.splits)

lemma set_inv: "node_inv n \<Longrightarrow> CacheNode_set n k v ttl_arg t now = Inr n' \<Longrightarrow> node_inv n'"
  by (auto simp: CacheNode_set_def set_metadata_inv evict_inv split: if_splits sum.splits)

lemma set_fields:
  assumes "CacheNode_set n k v ttl_arg t now = Inr n'"
  shows "eviction_policy n' = eviction_policy n" "max_size n' = max_size n" "node_id n' = node_id n"
  using assms
  by (auto simp: CacheNode_set_def set_metadata_fields evict_fields split: if_splits sum.splits)

lemma update_times_inv:
  "node_inv n \<Longrightarrow> eviction_policy n = ''LRU'' \<Longrightarrow> has_key (cache n) k \<Longrightarrow>
   node_inv (n\<lparr>access_times := AList.update k t (access_times n)\<rparr>)"
  by (auto simp: node_inv_def has_key_def AList.dom_update AList.distinct_update)

lemma update_counts_inv:
  "node_inv n \<Longrightarrow> eviction_policy n = ''LFU'' \<Longrightarrow> has_key (cache n) k \<Longrightarrow>
   node_inv (n\<lparr>access_counts := AList.update k c (access_counts n)\<rparr>)"
  by (auto simp: node_inv_def has_key_def AList.dom_update AList.distinct_update)

lemma get_inv: "node_inv n \<Longrightarrow> CacheNode_get n k now = Inr (n', r) \<Longrightarrow> node_inv n'"
  unfolding CacheNode_get_def
  by (auto simp: invalidate_inv update_times_inv update_counts_inv split: if_splits option.splits)

lemma get_fields:
  assumes "CacheNode_get n k now = Inr (n', r)"
  shows "eviction_policy n' = eviction_policy n" "max_size n' = max_size n" "node_id n' = node_id n"
    "length (cache n') \<le> length (cache n)"
  using assms
  by (auto simp: CacheNode_get_def invalidate_fields invalidate_length_le split: if_splits option.splits)

lemma get_no_error:
  assumes "node_inv n"
  shows "\<exists>n' r. CacheNode_get n k now = Inr (n', r)"
proof (cases "eviction_policy n = ''LFU'' \<and> has_key (cache n) k")
  case True
  with assms have "k \<in> fst ` set (access_counts n)" by (simp add: node_inv_def has_key_def)
  then obtain c where "map_of (access_counts n) k = Some c"
    by (metis domD dom_map_of_conv_image_fst)
  with True show ?thesis by (simp add: CacheNode_get_def)
next
  case False
  then show ?thesis by (auto simp: CacheNode_get_def split: option.splits)
qed

lemma set_bounded:
  assumes b: "bounded_node n"
  shows "\<exists>n'. CacheNode_set n k v ttl_arg t now = Inr n' \<and> bounded_node n'"
proof -
  from b have inv: "node_inv n" and pol: "eviction_policy n = ''LRU'' \<or> eviction_policy n = ''LFU''"
    and pos: "0 < max_size n" and le: "int (length (cache n)) \<le> max_size n"
    by (simp_all add: bounded_node_def)
  have "\<exists>n1. (if max_size n \<le> int (length (cache n)) then CacheNode_evict n t else Inr n) = Inr n1 \<and>
      int (length (cache n1)) < max_size n \<and> node_inv n1 \<and>
      eviction_policy n1 = eviction_policy n \<and> max_size n1 = max_size n"
  proof (cases "max_size n \<le> int (length (cache n))")
    case True
    with pos have ne: "cache n \<noteq> []" by auto
    from evict_lru_lfu[OF inv pol ne, of t] obtain k0 where
      e: "CacheNode_evict n t = Inr (CacheNode_invalidate n k0)" and k0: "k0 \<in> fst ` set (cache n)"
      by blast
    from inv have "distinct (map fst (cache n))" by (simp add: node_inv_def)
    from invalidate_length[OF this k0] le
    have "int (length (cache (CacheNode_invalidate n k0))) < max_size n" by linarith
    with e True inv show ?thesis
      by (simp add: invalidate_inv invalidate_fields)
  next
    case False
    with inv show ?thesis by simp
  qed
  then obtain n1 where
    ev: "(if max_size n \<le> int (length (cache n)) then CacheNode_evict n t else Inr n) = Inr n1"
    and len1: "int (length (cache n1)) < max_size n" and inv1: "node_inv n1"
    and f1: "eviction_policy n1 = eviction_policy n" "max_size n1 = max_size n"
    by blast
  let ?n' = "set_metadata (n1\<lparr>cache := AList.update k v (cache n1)\<rparr>) k ttl_arg now"
  from ev have res: "CacheNode_set n k v ttl_arg t now = Inr ?n'"
    by (simp add: CacheNode_set_def)
  have "length (AList.update k v (cache n1)) \<le> Suc (length (cache n1))"
    by (simp add: length_update)
  with len1 have "int (length (cache ?n')) \<le> max_size n"
    by (simp add: set_metadata_fields)
  with inv1 f1 pol pos have "bounded_node ?n'"
    by (simp add: bounded_node_def set_metadata_inv set_metadata_fields)
  with res show ?thesis by blast
qed

lemma get_bounded:
  assumes b: "bounded_node n"
  shows "\<exists>n' r. CacheNode_get n k now = Inr (n', r) \<and> bounded_node n'"
proof -
  from b have inv: "node_inv n" by (simp add: bounded_node_def)
  from get_no_error[OF inv, of k now] obtain n' r where g: "CacheNode_get n k now = Inr (n', r)"
    by blast
  from get_inv[OF inv g] get_fields[OF g] b have "bounded_node n'"
    by (simp add: bounded_node_def)
  with g show ?thesis by blast
qed

lemma invalidate_bounded: "bounded_node n \<Longrightarrow> bounded_node (CacheNode_invalidate n k)"
  using invalidate_length_le[of n k]
  by (simp add: bounded_node_def invalidate_inv invalidate_fields)

lemma apply_op_bounded:
  assumes "bounded_node n"
  shows "\<exists>n'. apply_op n x = Inr n' \<and> bounded_node n'"
proof (cases x)
  case (OpGet k now)
  with get_bounded[OF assms, of k now] show ?thesis by auto
next
  case (OpSet k v ttl_arg t now)
  with set_bounded[OF assms, of k v ttl_arg t now] show ?thesis by auto
next
  case (OpInvalidate k)
  with invalidate_bounded[OF assms, of k] show ?thesis by auto
qed

lemma run_ops_bounded:
  "bounded_node n \<Longrightarrow> \<exists>n'. run_ops n xs = Inr n' \<and> bounded_node n'"
proof (induction xs arbitrary: n)
  case Nil
  then show ?case by simp
next
  case (Cons x xs)
  from apply_op_bounded[OF Cons.prems, of x] obtain n1 where
    a: "apply_op n x = Inr n1" and b: "bounded_node n1" by blast
  from Cons.IH[OF b] a show ?case by simp
qed

lemma run_ops_fields:
  "run_ops n xs = Inr n' \<Longrightarrow> max_size n' = max_size n \<and> eviction_policy n' = eviction_policy n"
proof (induction xs arbitrary: n)
  case Nil
  then show ?case by simp
next
  case (Cons x xs)
  then obtain n1 where a: "apply_op n x = Inr n1" and r: "run_ops n1 xs = Inr n'"
    by (auto split: sum.splits)
  from a have "max_size n1 = max_size n \<and> eviction_policy n1 = eviction_policy n"
    by (cases x) (auto simp: set_fields get_fields invalidate_fields split: sum.splits)
  with Cons.IH[OF r] show ?case by simp
qed

text \<open>Every state reached from the constructor satisfies the invariant, under any policy.\<close>

lemma apply_op_inv: "node_inv n \<Longrightarrow> apply_op n x = Inr n' \<Longrightarrow> node_inv n'"
proof (cases x)
  case (OpGet k now)
  assume i: "node_inv n" and a: "apply_op n x = Inr n'"
  from a OpGet obtain r where "CacheNode_get n k now = Inr (n', r)"
    by (auto split: sum.splits)
  with i show ?thesis by (rule get_inv)
next
  case (OpSet k v ttl_arg te now)
  assume i: "node_inv n" and a: "apply_op n x = Inr n'"
  from a OpSet have "CacheNode_set n k v ttl_arg te now = Inr n'" by simp
  with i show ?thesis by (rule set_inv)
next
  case (OpInvalidate k)
  assume i: "node_inv n" and a: "apply_op n x = Inr n'"
  from a OpInvalidate have "n' = CacheNode_invalidate n k" by simp
  with i show ?thesis by (simp add: invalidate_inv)
qed

lemma run_ops_inv: "node_inv n \<Longrightarrow> run_ops n xs = Inr n' \<Longrightarrow> node_inv n'"
proof (induction xs arbitrary: n)
  case Nil
  then show ?case by simp
next
  case (Cons x xs)
  from Cons.prems(2) obtain n1 where a: "apply_op n x = Inr n1" and r: "run_ops n1 xs = Inr n'"
    by (auto split: sum.splits)
  from apply_op_inv[OF Cons.prems(1) a] r show ?case by (rule Cons.IH)
qed

lemma reachable_inv: "run_ops (CacheNode_init nid p C) xs = Inr n' \<Longrightarrow> node_inv n'"
  using init_inv by (rule run_ops_inv)

subsection \<open>C1: capacity bound and metadata keys (LRU, LFU)\<close>

text \<open>
  C1. A shard built with policy LRU or LFU and a positive capacity \<open>C\<close> runs every
  sequence of \<^verbatim>\<open>get\<close>, \<^verbatim>\<open>set\<close> and \<^verbatim>\<open>invalidate\<close> calls, with any clock readings,
  without an exception; afterwards it holds at most \<open>C\<close> entries (under unique keys),
  and the keys of the timestamp, counter and expiry dicts are keys of the entries dict.
  Every prefix of a run is a run, so this holds after each call.
\<close>

theorem C1_capacity_bound_and_metadata_subset:
  assumes "p = ''LRU'' \<or> p = ''LFU''" and "0 < C"
  shows "\<exists>n'. run_ops (CacheNode_init nid p C) xs = Inr n' \<and>
           int (length (cache n')) \<le> C \<and> distinct (map fst (cache n')) \<and>
           fst ` set (access_times n') \<subseteq> fst ` set (cache n') \<and>
           fst ` set (access_counts n') \<subseteq> fst ` set (cache n') \<and>
           fst ` set (ttl n') \<subseteq> fst ` set (cache n')"
proof -
  have "bounded_node (CacheNode_init nid p C)"
    using assms by (auto simp: bounded_node_def init_inv) (simp_all add: CacheNode_init_def)
  from run_ops_bounded[OF this, of xs] obtain n' where
    r: "run_ops (CacheNode_init nid p C) xs = Inr n'" and b: "bounded_node n'" by blast
  from run_ops_fields[OF r] have "max_size n' = C" by (simp add: CacheNode_init_def)
  with b have "int (length (cache n')) \<le> C" "distinct (map fst (cache n'))"
    "fst ` set (access_times n') \<subseteq> fst ` set (cache n')"
    "fst ` set (access_counts n') \<subseteq> fst ` set (cache n')"
    "fst ` set (ttl n') \<subseteq> fst ` set (cache n')"
    by (auto simp: bounded_node_def node_inv_def split: if_splits)
  with r show ?thesis by blast
qed

text \<open>The theorem at an LRU shard of capacity 2 and five calls.\<close>

theorem C1_witness:
  "(''LRU'' = ''LRU'' \<or> ''LRU'' = ''LFU'') \<and> (0::int) < 2 \<and>
   (\<exists>n'. run_ops (CacheNode_init ''node2'' ''LRU'' 2)
            [OpSet ''A'' ''1'' None 0 1, OpSet ''B'' ''2'' None 1 2, OpGet ''A'' 3,
             OpSet ''C'' ''3'' None 3 4, OpInvalidate ''A''] = Inr n' \<and>
      int (length (cache n')) \<le> 2 \<and> distinct (map fst (cache n')) \<and>
      fst ` set (access_times n') \<subseteq> fst ` set (cache n') \<and>
      fst ` set (access_counts n') \<subseteq> fst ` set (cache n') \<and>
      fst ` set (ttl n') \<subseteq> fst ` set (cache n'))"
proof -
  have a: "''LRU'' = ''LRU'' \<or> ''LRU'' = ''LFU''" by simp
  have b: "(0::int) < 2" by simp
  from C1_capacity_bound_and_metadata_subset[OF a b] a b show ?thesis by blast
qed

subsection \<open>Eviction at capacity\<close>

lemma py_min_key_lookup:
  assumes "distinct (map fst d)" and "d \<noteq> []"
  shows "\<exists>k v. py_min_key d = Inr k \<and> map_of d k = Some v \<and>
           (\<forall>k' v'. map_of d k' = Some v' \<longrightarrow> v \<le> v')"
proof -
  from py_min_key_spec[OF assms(2)] obtain k v where
    m: "py_min_key d = Inr k" and i: "(k, v) \<in> set d" and le: "\<forall>p \<in> set d. v \<le> snd p"
    by blast
  from assms(1) i have "map_of d k = Some v" by simp
  moreover have "\<forall>k' v'. map_of d k' = Some v' \<longrightarrow> v \<le> v'"
    using le by (auto dest!: map_of_SomeD)
  ultimately show ?thesis using m by blast
qed

lemma set_below_capacity:
  "int (length (cache n)) < max_size n \<Longrightarrow>
   CacheNode_set n k v ttl_arg te now =
     Inr (set_metadata (n\<lparr>cache := AList.update k v (cache n)\<rparr>) k ttl_arg now)"
  by (simp add: CacheNode_set_def)

lemma set_at_capacity:
  "max_size n \<le> int (length (cache n)) \<Longrightarrow>
   CacheNode_set n k v ttl_arg te now =
     (case CacheNode_evict n te of
        Inl e \<Rightarrow> Inl e
      | Inr n1 \<Rightarrow> Inr (set_metadata (n1\<lparr>cache := AList.update k v (cache n1)\<rparr>) k ttl_arg now))"
  by (simp add: CacheNode_set_def)

lemma first_min_lookup:
  fixes d :: "('k \<times> 'v::linorder) list"
  assumes dist: "distinct (map fst d)" and split: "d = pre @ (k, v) # post"
    and pre: "\<forall>p \<in> set pre. v < snd p" and post: "\<forall>p \<in> set post. v \<le> snd p"
  shows "map_of d k = Some v \<and> (\<forall>k' v'. map_of d k' = Some v' \<longrightarrow> v \<le> v')"
proof -
  from split have "(k, v) \<in> set d" by simp
  with dist have m: "map_of d k = Some v" by simp
  have "v \<le> v'" if "map_of d k' = Some v'" for k' v'
  proof -
    from that have "(k', v') \<in> set d" by (rule map_of_SomeD)
    with split have "(k', v') \<in> set pre \<or> (k', v') = (k, v) \<or> (k', v') \<in> set post" by auto
    with pre post show ?thesis by force
  qed
  with m show ?thesis by blast
qed

lemma set_full_lru:
  assumes inv: "node_inv n" and pol: "eviction_policy n = ''LRU''"
    and full: "max_size n \<le> int (length (cache n))" and ne: "cache n \<noteq> []"
  shows "\<exists>victim tv pre post.
           access_times n = pre @ (victim, tv) # post \<and>
           (\<forall>p \<in> set pre. tv < snd p) \<and> (\<forall>p \<in> set post. tv \<le> snd p) \<and>
           map_of (access_times n) victim = Some tv \<and>
           (\<forall>k' t'. map_of (access_times n) k' = Some t' \<longrightarrow> tv \<le> t') \<and>
           has_key (cache n) victim \<and>
           CacheNode_set n k v ttl_arg te now =
             Inr (n\<lparr>cache := AList.update k v (AList.delete victim (cache n)),
                    access_times := AList.update k now (AList.delete victim (access_times n))\<rparr>)"
proof -
  from inv pol have eq: "fst ` set (access_times n) = fst ` set (cache n)"
    and d: "distinct (map fst (access_times n))" and e: "access_counts n = []" "ttl n = []"
    by (simp_all add: node_inv_def)
  from eq ne have "access_times n \<noteq> []" by auto
  from py_min_key_first[OF this] obtain victim tv pre post where
    m: "py_min_key (access_times n) = Inr victim"
    and sp: "access_times n = pre @ (victim, tv) # post"
    and pre: "\<forall>p \<in> set pre. tv < snd p" and post: "\<forall>p \<in> set post. tv \<le> snd p" by blast
  from first_min_lookup[OF d sp pre post]
  have l: "map_of (access_times n) victim = Some tv"
    and le: "\<forall>k' t'. map_of (access_times n) k' = Some t' \<longrightarrow> tv \<le> t'" by blast+
  from sp have "victim \<in> fst ` set (access_times n)" by force
  with eq have hk: "has_key (cache n) victim" by (simp add: has_key_def)
  have "CacheNode_set n k v ttl_arg te now =
      Inr (n\<lparr>cache := AList.update k v (AList.delete victim (cache n)),
             access_times := AList.update k now (AList.delete victim (access_times n))\<rparr>)"
    using full pol m hk e
    by (simp add: set_at_capacity CacheNode_evict_def CacheNode_invalidate_def set_metadata_def del_if_in_eq)
  with sp pre post l le hk show ?thesis by blast
qed

lemma set_full_lfu:
  assumes inv: "node_inv n" and pol: "eviction_policy n = ''LFU''"
    and full: "max_size n \<le> int (length (cache n))" and ne: "cache n \<noteq> []"
  shows "\<exists>victim c pre post.
           access_counts n = pre @ (victim, c) # post \<and>
           (\<forall>p \<in> set pre. c < snd p) \<and> (\<forall>p \<in> set post. c \<le> snd p) \<and>
           map_of (access_counts n) victim = Some c \<and>
           (\<forall>k' c'. map_of (access_counts n) k' = Some c' \<longrightarrow> c \<le> c') \<and>
           has_key (cache n) victim \<and>
           CacheNode_set n k v ttl_arg te now =
             Inr (n\<lparr>cache := AList.update k v (AList.delete victim (cache n)),
                    access_counts := AList.update k 1 (AList.delete victim (access_counts n))\<rparr>)"
proof -
  from inv pol have eq: "fst ` set (access_counts n) = fst ` set (cache n)"
    and d: "distinct (map fst (access_counts n))" and e: "access_times n = []" "ttl n = []"
    by (simp_all add: node_inv_def)
  from eq ne have "access_counts n \<noteq> []" by auto
  from py_min_key_first[OF this] obtain victim c pre post where
    m: "py_min_key (access_counts n) = Inr victim"
    and sp: "access_counts n = pre @ (victim, c) # post"
    and pre: "\<forall>p \<in> set pre. c < snd p" and post: "\<forall>p \<in> set post. c \<le> snd p" by blast
  from first_min_lookup[OF d sp pre post]
  have l: "map_of (access_counts n) victim = Some c"
    and le: "\<forall>k' c'. map_of (access_counts n) k' = Some c' \<longrightarrow> c \<le> c'" by blast+
  from sp have "victim \<in> fst ` set (access_counts n)" by force
  with eq have hk: "has_key (cache n) victim" by (simp add: has_key_def)
  have "CacheNode_set n k v ttl_arg te now =
      Inr (n\<lparr>cache := AList.update k v (AList.delete victim (cache n)),
             access_counts := AList.update k 1 (AList.delete victim (access_counts n))\<rparr>)"
    using full pol m hk e
    by (simp add: set_at_capacity CacheNode_evict_def CacheNode_invalidate_def set_metadata_def del_if_in_eq)
  with sp pre post l le hk show ?thesis by blast
qed

lemma get_lru_present:
  assumes "eviction_policy n = ''LRU''" and "has_key (cache n) k"
  shows "\<exists>v. map_of (cache n) k = Some v \<and>
           CacheNode_get n k now = Inr (n\<lparr>access_times := AList.update k now (access_times n)\<rparr>, Some v)"
proof -
  from assms(2) obtain v where "map_of (cache n) k = Some v"
    unfolding has_key_def by (metis domD dom_map_of_conv_image_fst)
  with assms show ?thesis by (simp add: CacheNode_get_def)
qed

lemmas node_defs = CacheNode_init_def CacheNode_set_def CacheNode_get_def CacheNode_evict_def
  CacheNode_invalidate_def set_metadata_def has_key_def del_if_in_def py_min_key_def

lemma lru_scenario:
  assumes "tB < tG"
  shows "\<exists>n4 m1 m2.
     run_ops (CacheNode_init nid ''LRU'' 2)
       [OpSet ''A'' ''1'' ttlA eA tA, OpSet ''B'' ''2'' ttlB eB tB, OpGet ''A'' tG,
        OpSet ''C'' ''3'' ttlC eC tC] = Inr n4 \<and>
     cache n4 = [(''A'', ''1''), (''C'', ''3'')] \<and>
     CacheNode_get n4 ''A'' t1 = Inr (m1, Some ''1'') \<and>
     CacheNode_get m1 ''B'' t2 = Inr (m1, None) \<and>
     CacheNode_get m1 ''C'' t3 = Inr (m2, Some ''3'')"
  using assms by (simp add: node_defs)

lemma lru_scenario_tie:
  assumes "tG \<le> tB"
  shows "\<exists>n4 m1 m2.
     run_ops (CacheNode_init nid ''LRU'' 2)
       [OpSet ''A'' ''1'' ttlA eA tA, OpSet ''B'' ''2'' ttlB eB tB, OpGet ''A'' tG,
        OpSet ''C'' ''3'' ttlC eC tC] = Inr n4 \<and>
     cache n4 = [(''B'', ''2''), (''C'', ''3'')] \<and>
     CacheNode_get n4 ''A'' t1 = Inr (n4, None) \<and>
     CacheNode_get n4 ''B'' t2 = Inr (m1, Some ''2'') \<and>
     CacheNode_get m1 ''C'' t3 = Inr (m2, Some ''3'')"
  using assms by (simp add: node_defs)

lemma lru_example_reached:
  "run_ops (CacheNode_init ''node2'' ''LRU'' 2)
     [OpSet ''A'' ''1'' None 0 1, OpSet ''B'' ''2'' None 1 2, OpGet ''A'' 3] = Inr lru_example"
  by (simp add: node_defs lru_example_def)

lemma lfu_example_reached:
  "run_ops (CacheNode_init ''node3'' ''LFU'' 2)
     [OpSet ''A'' ''1'' None 0 1, OpSet ''B'' ''2'' None 1 2] = Inr lfu_example"
  by (simp add: node_defs lfu_example_def)

lemma lru_example_inv: "node_inv lru_example"
  by (simp add: node_inv_def lru_example_def)

subsection \<open>C6: LRU eviction\<close>

text \<open>
  C6 (amended). On an LRU shard at (or above) its positive capacity, \<^verbatim>\<open>set\<close> of a new key
  first removes the first key, in stored order, whose last-access timestamp is the
  smallest, and then stores the new entry; \<^verbatim>\<open>get\<close> of a stored key returns its value and
  sets its timestamp to the clock reading. On a shard of capacity 2 the calls
  \<^verbatim>\<open>set(A,1)\<close>, \<^verbatim>\<open>set(B,2)\<close>, \<^verbatim>\<open>get(A)\<close>, \<^verbatim>\<open>set(C,3)\<close> evict B when the clock reading of
  \<^verbatim>\<open>get(A)\<close> is strictly later than the one of \<^verbatim>\<open>set(B,2)\<close>: afterwards \<^verbatim>\<open>get(A)\<close> is 1,
  \<^verbatim>\<open>get(B)\<close> is absent and \<^verbatim>\<open>get(C)\<close> is 3. When the reading of \<^verbatim>\<open>get(A)\<close> is not later
  (the clock returned the same value), A is the first key with the smallest timestamp
  and is evicted instead: afterwards \<^verbatim>\<open>get(A)\<close> is absent and \<^verbatim>\<open>get(B)\<close> is 2.
\<close>

theorem C6_lru_evicts_least_recently_used:
  "(node_inv n \<and> eviction_policy n = ''LRU'' \<and> 0 < max_size n \<and>
    max_size n \<le> int (length (cache n)) \<and> \<not> has_key (cache n) key \<longrightarrow>
      (\<exists>victim tv pre post.
         access_times n = pre @ (victim, tv) # post \<and>
         (\<forall>p \<in> set pre. tv < snd p) \<and> (\<forall>p \<in> set post. tv \<le> snd p) \<and>
         map_of (access_times n) victim = Some tv \<and>
         (\<forall>k' t'. map_of (access_times n) k' = Some t' \<longrightarrow> tv \<le> t') \<and>
         has_key (cache n) victim \<and>
         CacheNode_set n key val ttl_arg te now =
           Inr (n\<lparr>cache := AList.update key val (AList.delete victim (cache n)),
                  access_times := AList.update key now (AList.delete victim (access_times n))\<rparr>))) \<and>
   (eviction_policy n = ''LRU'' \<and> has_key (cache n) k \<longrightarrow>
      (\<exists>v n'. CacheNode_get n k tg = Inr (n', Some v) \<and> map_of (cache n) k = Some v \<and>
         map_of (access_times n') k = Some tg)) \<and>
   (tB < tG \<longrightarrow>
      (\<exists>n4 m1 m2.
         run_ops (CacheNode_init nid ''LRU'' 2)
           [OpSet ''A'' ''1'' ttlA eA tA, OpSet ''B'' ''2'' ttlB eB tB, OpGet ''A'' tG,
            OpSet ''C'' ''3'' ttlC eC tC] = Inr n4 \<and>
         cache n4 = [(''A'', ''1''), (''C'', ''3'')] \<and>
         CacheNode_get n4 ''A'' t1 = Inr (m1, Some ''1'') \<and>
         CacheNode_get m1 ''B'' t2 = Inr (m1, None) \<and>
         CacheNode_get m1 ''C'' t3 = Inr (m2, Some ''3''))) \<and>
   (tG \<le> tB \<longrightarrow>
      (\<exists>n4 m1 m2.
         run_ops (CacheNode_init nid ''LRU'' 2)
           [OpSet ''A'' ''1'' ttlA eA tA, OpSet ''B'' ''2'' ttlB eB tB, OpGet ''A'' tG,
            OpSet ''C'' ''3'' ttlC eC tC] = Inr n4 \<and>
         cache n4 = [(''B'', ''2''), (''C'', ''3'')] \<and>
         CacheNode_get n4 ''A'' t1 = Inr (n4, None) \<and>
         CacheNode_get n4 ''B'' t2 = Inr (m1, Some ''2'') \<and>
         CacheNode_get m1 ''C'' t3 = Inr (m2, Some ''3'')))"
proof (intro conjI impI)
  assume a: "node_inv n \<and> eviction_policy n = ''LRU'' \<and> 0 < max_size n \<and>
    max_size n \<le> int (length (cache n)) \<and> \<not> has_key (cache n) key"
  then have "cache n \<noteq> []" by auto
  with a set_full_lru[of n key val ttl_arg te now]
  show "\<exists>victim tv pre post.
         access_times n = pre @ (victim, tv) # post \<and>
         (\<forall>p \<in> set pre. tv < snd p) \<and> (\<forall>p \<in> set post. tv \<le> snd p) \<and>
         map_of (access_times n) victim = Some tv \<and>
         (\<forall>k' t'. map_of (access_times n) k' = Some t' \<longrightarrow> tv \<le> t') \<and>
         has_key (cache n) victim \<and>
         CacheNode_set n key val ttl_arg te now =
           Inr (n\<lparr>cache := AList.update key val (AList.delete victim (cache n)),
                  access_times := AList.update key now (AList.delete victim (access_times n))\<rparr>)"
    by blast
next
  assume "eviction_policy n = ''LRU'' \<and> has_key (cache n) k"
  with get_lru_present[of n k tg] obtain v where
    "map_of (cache n) k = Some v"
    "CacheNode_get n k tg = Inr (n\<lparr>access_times := AList.update k tg (access_times n)\<rparr>, Some v)"
    by blast
  then show "\<exists>v n'. CacheNode_get n k tg = Inr (n', Some v) \<and> map_of (cache n) k = Some v \<and>
         map_of (access_times n') k = Some tg"
    by (simp add: AList.update_conv')
next
  assume "tB < tG"
  then show "\<exists>n4 m1 m2.
         run_ops (CacheNode_init nid ''LRU'' 2)
           [OpSet ''A'' ''1'' ttlA eA tA, OpSet ''B'' ''2'' ttlB eB tB, OpGet ''A'' tG,
            OpSet ''C'' ''3'' ttlC eC tC] = Inr n4 \<and>
         cache n4 = [(''A'', ''1''), (''C'', ''3'')] \<and>
         CacheNode_get n4 ''A'' t1 = Inr (m1, Some ''1'') \<and>
         CacheNode_get m1 ''B'' t2 = Inr (m1, None) \<and>
         CacheNode_get m1 ''C'' t3 = Inr (m2, Some ''3'')"
    by (rule lru_scenario)
next
  assume "tG \<le> tB"
  then show "\<exists>n4 m1 m2.
         run_ops (CacheNode_init nid ''LRU'' 2)
           [OpSet ''A'' ''1'' ttlA eA tA, OpSet ''B'' ''2'' ttlB eB tB, OpGet ''A'' tG,
            OpSet ''C'' ''3'' ttlC eC tC] = Inr n4 \<and>
         cache n4 = [(''B'', ''2''), (''C'', ''3'')] \<and>
         CacheNode_get n4 ''A'' t1 = Inr (n4, None) \<and>
         CacheNode_get n4 ''B'' t2 = Inr (m1, Some ''2'') \<and>
         CacheNode_get m1 ''C'' t3 = Inr (m2, Some ''3'')"
    by (rule lru_scenario_tie)
qed

text \<open>
  C6 as stated fails when the clock returns the same reading for \<^verbatim>\<open>set(B,2)\<close> and
  \<^verbatim>\<open>get(A)\<close> (here every reading is 0): the timestamps of A and B are equal, \<^verbatim>\<open>min\<close> keeps
  A, the first key, so A is evicted, and afterwards \<^verbatim>\<open>get(A)\<close> is absent and \<^verbatim>\<open>get(B)\<close> is 2.
\<close>

theorem C6_counterexample:
  "run_ops (CacheNode_init ''node2'' ''LRU'' 2)
     [OpSet ''A'' ''1'' None 0 0, OpSet ''B'' ''2'' None 0 0, OpGet ''A'' 0,
      OpSet ''C'' ''3'' None 0 0] =
     Inr \<lparr>node_id = ''node2'', max_size = 2, cache = [(''B'', ''2''), (''C'', ''3'')],
          eviction_policy = ''LRU'', access_times = [(''B'', 0), (''C'', 0)],
          access_counts = [], ttl = []\<rparr> \<and>
   CacheNode_get
     \<lparr>node_id = ''node2'', max_size = 2, cache = [(''B'', ''2''), (''C'', ''3'')],
      eviction_policy = ''LRU'', access_times = [(''B'', 0), (''C'', 0)],
      access_counts = [], ttl = []\<rparr> ''A'' 0 =
     Inr (\<lparr>node_id = ''node2'', max_size = 2, cache = [(''B'', ''2''), (''C'', ''3'')],
           eviction_policy = ''LRU'', access_times = [(''B'', 0), (''C'', 0)],
           access_counts = [], ttl = []\<rparr>, None) \<and>
   CacheNode_get
     \<lparr>node_id = ''node2'', max_size = 2, cache = [(''B'', ''2''), (''C'', ''3'')],
      eviction_policy = ''LRU'', access_times = [(''B'', 0), (''C'', 0)],
      access_counts = [], ttl = []\<rparr> ''B'' 0 =
     Inr (\<lparr>node_id = ''node2'', max_size = 2, cache = [(''B'', ''2''), (''C'', ''3'')],
           eviction_policy = ''LRU'', access_times = [(''B'', 0), (''C'', 0)],
           access_counts = [], ttl = []\<rparr>, Some ''2'')"
  by (simp add: node_defs)

text \<open>
  The amended C6 at the LRU example state, at the clock readings 1, 2, 3, 4, and at
  equal readings.
\<close>

theorem C6_witness:
  "node_inv lru_example \<and> eviction_policy lru_example = ''LRU'' \<and> 0 < max_size lru_example \<and>
   max_size lru_example \<le> int (length (cache lru_example)) \<and>
   \<not> has_key (cache lru_example) ''C'' \<and> has_key (cache lru_example) ''A'' \<and> (2::real) < 3 \<and>
   (0::real) \<le> 0 \<and>
   CacheNode_set lru_example ''C'' ''3'' None 4 4 =
     Inr (lru_example\<lparr>cache := [(''A'', ''1''), (''C'', ''3'')],
                      access_times := [(''A'', 3), (''C'', 4)]\<rparr>) \<and>
   (\<exists>n'. CacheNode_get lru_example ''A'' 5 = Inr (n', Some ''1'') \<and>
      map_of (access_times n') ''A'' = Some 5) \<and>
   (\<exists>n4 m1 m2.
      run_ops (CacheNode_init ''node2'' ''LRU'' 2)
        [OpSet ''A'' ''1'' None 0 1, OpSet ''B'' ''2'' None 1 2, OpGet ''A'' 3,
         OpSet ''C'' ''3'' None 4 4] = Inr n4 \<and>
      cache n4 = [(''A'', ''1''), (''C'', ''3'')] \<and>
      CacheNode_get n4 ''A'' 5 = Inr (m1, Some ''1'') \<and>
      CacheNode_get m1 ''B'' 6 = Inr (m1, None) \<and>
      CacheNode_get m1 ''C'' 7 = Inr (m2, Some ''3'')) \<and>
   (\<exists>n4 m1 m2.
      run_ops (CacheNode_init ''node2'' ''LRU'' 2)
        [OpSet ''A'' ''1'' None 0 0, OpSet ''B'' ''2'' None 0 0, OpGet ''A'' 0,
         OpSet ''C'' ''3'' None 0 0] = Inr n4 \<and>
      cache n4 = [(''B'', ''2''), (''C'', ''3'')] \<and>
      CacheNode_get n4 ''A'' 0 = Inr (n4, None) \<and>
      CacheNode_get n4 ''B'' 0 = Inr (m1, Some ''2'') \<and>
      CacheNode_get m1 ''C'' 0 = Inr (m2, Some ''3''))"
proof -
  have h: "node_inv lru_example \<and> eviction_policy lru_example = ''LRU'' \<and> 0 < max_size lru_example \<and>
    max_size lru_example \<le> int (length (cache lru_example)) \<and> \<not> has_key (cache lru_example) ''C''"
    by (simp add: lru_example_inv) (simp add: lru_example_def has_key_def)
  have g: "eviction_policy lru_example = ''LRU'' \<and> has_key (cache lru_example) ''A''"
    by (simp add: lru_example_def has_key_def)
  have t: "(2::real) < 3" by simp
  have u: "(0::real) \<le> 0" by simp
  note inst = C6_lru_evicts_least_recently_used[of lru_example "''C''" "''3''" None 4 4 "''A''" 5 2 3
      "''node2''" None 0 1 None 1 None 4 4 5 6 7]
  from inst h obtain victim tv pre post where
    sp: "access_times lru_example = pre @ (victim, tv) # post"
    and pre: "\<forall>p \<in> set pre. tv < snd p" and post: "\<forall>p \<in> set post. tv \<le> snd p"
    and s: "CacheNode_set lru_example ''C'' ''3'' None 4 4 =
           Inr (lru_example\<lparr>cache := AList.update ''C'' ''3'' (AList.delete victim (cache lru_example)),
                  access_times := AList.update ''C'' 4 (AList.delete victim (access_times lru_example))\<rparr>)"
    by blast
  have sp': "access_times lru_example = [(''A'', 3)] @ (''B'', 2) # []"
    by (simp add: lru_example_def)
  have "\<forall>p \<in> set [(''A'', 3::real)]. 2 < snd p" "\<forall>p \<in> set ([]::(string \<times> real) list). 2 \<le> snd p"
    by simp_all
  from first_min_unique[OF sp pre post sp' this] have "victim = ''B''" by simp
  with s have s': "CacheNode_set lru_example ''C'' ''3'' None 4 4 =
     Inr (lru_example\<lparr>cache := [(''A'', ''1''), (''C'', ''3'')],
                      access_times := [(''A'', 3), (''C'', 4)]\<rparr>)"
    by (simp add: lru_example_def)
  from inst g have g': "\<exists>n'. CacheNode_get lru_example ''A'' 5 = Inr (n', Some ''1'') \<and>
      map_of (access_times n') ''A'' = Some 5"
    by (auto simp: lru_example_def)
  from inst t have r: "\<exists>n4 m1 m2.
      run_ops (CacheNode_init ''node2'' ''LRU'' 2)
        [OpSet ''A'' ''1'' None 0 1, OpSet ''B'' ''2'' None 1 2, OpGet ''A'' 3,
         OpSet ''C'' ''3'' None 4 4] = Inr n4 \<and>
      cache n4 = [(''A'', ''1''), (''C'', ''3'')] \<and>
      CacheNode_get n4 ''A'' 5 = Inr (m1, Some ''1'') \<and>
      CacheNode_get m1 ''B'' 6 = Inr (m1, None) \<and>
      CacheNode_get m1 ''C'' 7 = Inr (m2, Some ''3'')"
    by blast
  from C6_lru_evicts_least_recently_used[of lru_example "''C''" "''3''" None 4 4 "''A''" 5 0 0
      "''node2''" None 0 0 None 0 None 0 0 0 0 0] u
  have r0: "\<exists>n4 m1 m2.
      run_ops (CacheNode_init ''node2'' ''LRU'' 2)
        [OpSet ''A'' ''1'' None 0 0, OpSet ''B'' ''2'' None 0 0, OpGet ''A'' 0,
         OpSet ''C'' ''3'' None 0 0] = Inr n4 \<and>
      cache n4 = [(''B'', ''2''), (''C'', ''3'')] \<and>
      CacheNode_get n4 ''A'' 0 = Inr (n4, None) \<and>
      CacheNode_get n4 ''B'' 0 = Inr (m1, Some ''2'') \<and>
      CacheNode_get m1 ''C'' 0 = Inr (m2, Some ''3'')"
    by blast
  from h g t u s' g' r r0 show ?thesis by blast
qed

subsection \<open>TTL eviction\<close>

lemma invalidate_cache: "cache (CacheNode_invalidate n k) = AList.delete k (cache n)"
  by (simp add: CacheNode_invalidate_def has_key_def)

lemma foldl_invalidate_cache:
  "cache (foldl CacheNode_invalidate n ks) = filter (\<lambda>p. fst p \<notin> set ks) (cache n)"
proof (induction ks arbitrary: n)
  case Nil
  show ?case by simp
next
  case (Cons k ks)
  have "filter (\<lambda>p. fst p \<notin> set ks) (AList.delete k (cache n)) =
        filter (\<lambda>p. fst p \<notin> set (k # ks)) (cache n)"
    by (auto simp: AList.delete_eq intro!: filter_cong)
  with Cons.IH[of "CacheNode_invalidate n k"] show ?case
    by (simp add: invalidate_cache)
qed

lemma foldl_invalidate_ttl:
  "set ks \<subseteq> fst ` set (cache n) \<Longrightarrow> distinct ks \<Longrightarrow>
   ttl (foldl CacheNode_invalidate n ks) = filter (\<lambda>p. fst p \<notin> set ks) (ttl n)"
proof (induction ks arbitrary: n)
  case Nil
  show ?case by simp
next
  case (Cons k ks)
  from Cons.prems have k: "has_key (cache n) k" by (simp add: has_key_def)
  then have t: "ttl (CacheNode_invalidate n k) = AList.delete k (ttl n)"
    by (simp add: CacheNode_invalidate_def del_if_in_eq)
  from Cons.prems have "set ks \<subseteq> fst ` set (cache (CacheNode_invalidate n k))"
    by (auto simp: invalidate_keys)
  moreover from Cons.prems have "distinct ks" by simp
  ultimately have "ttl (foldl CacheNode_invalidate (CacheNode_invalidate n k) ks) =
      filter (\<lambda>p. fst p \<notin> set ks) (ttl (CacheNode_invalidate n k))"
    by (rule Cons.IH)
  moreover have "filter (\<lambda>p. fst p \<notin> set ks) (AList.delete k (ttl n)) =
        filter (\<lambda>p. fst p \<notin> set (k # ks)) (ttl n)"
    by (auto simp: AList.delete_eq intro!: filter_cong)
  ultimately show ?case using t by simp
qed

lemma expired_keys_iff:
  assumes "distinct (map fst (ttl n))"
  shows "k \<in> set (map fst (filter (\<lambda>(key, expiry). expiry \<le> t) (ttl n))) \<longleftrightarrow> expired n t k"
proof -
  have "k \<in> set (map fst (filter (\<lambda>(key, expiry). expiry \<le> t) (ttl n))) \<longleftrightarrow>
        (\<exists>e. (k, e) \<in> set (ttl n) \<and> e \<le> t)"
    by (auto simp: image_iff)
  also have "\<dots> \<longleftrightarrow> (\<exists>e. map_of (ttl n) k = Some e \<and> e \<le> t)"
    using assms by simp
  also have "\<dots> \<longleftrightarrow> expired n t k"
    by (simp add: expired_def split: option.splits)
  finally show ?thesis .
qed

lemma evict_ttl:
  assumes pol: "eviction_policy n = ''TTL''" and inv: "node_inv n"
  shows "CacheNode_evict n t =
           Inr (foldl CacheNode_invalidate n (map fst (filter (\<lambda>(key, expiry). expiry \<le> t) (ttl n))))"
    and "cache (foldl CacheNode_invalidate n (map fst (filter (\<lambda>(key, expiry). expiry \<le> t) (ttl n)))) =
           filter (\<lambda>(k, v). \<not> expired n t k) (cache n)"
    and "ttl (foldl CacheNode_invalidate n (map fst (filter (\<lambda>(key, expiry). expiry \<le> t) (ttl n)))) =
           filter (\<lambda>(k, e). \<not> expired n t k) (ttl n)"
proof -
  let ?ks = "map fst (filter (\<lambda>(key, expiry). expiry \<le> t) (ttl n))"
  from inv have d: "distinct (map fst (ttl n))" by (simp add: node_inv_def)
  from pol show "CacheNode_evict n t = Inr (foldl CacheNode_invalidate n ?ks)"
    by (simp add: CacheNode_evict_def)
  have mem: "\<And>k. k \<in> set ?ks \<longleftrightarrow> expired n t k"
    by (rule expired_keys_iff[OF d])
  show "cache (foldl CacheNode_invalidate n ?ks) = filter (\<lambda>(k, v). \<not> expired n t k) (cache n)"
    unfolding foldl_invalidate_cache using mem by (auto intro!: filter_cong)
  from inv pol have sub: "fst ` set (ttl n) \<subseteq> fst ` set (cache n)" by (simp add: node_inv_def)
  have "set ?ks \<subseteq> fst ` set (ttl n)" by auto
  with sub have s: "set ?ks \<subseteq> fst ` set (cache n)" by blast
  from d have dk: "distinct ?ks" by (simp add: distinct_map_filter)
  show "ttl (foldl CacheNode_invalidate n ?ks) = filter (\<lambda>(k, e). \<not> expired n t k) (ttl n)"
    unfolding foldl_invalidate_ttl[OF s dk] using mem by (auto intro!: filter_cong)
qed

lemma update_new_key: "k \<notin> fst ` set d \<Longrightarrow> AList.update k v d = d @ [(k, v)]"
  by (induction d) auto

lemma ttl_example_reached:
  "run_ops (CacheNode_init ''node1'' ''TTL'' 3)
     [OpSet ''A'' ''1'' (Some 5) 0 0, OpSet ''B'' ''2'' (Some 9) 1 1, OpSet ''C'' ''3'' None 2 2] =
   Inr ttl_example"
  by (simp add: node_defs ttl_example_def)

lemma set_ttl_nothing_expired:
  assumes pol: "eviction_policy n = ''TTL''" and inv: "node_inv n"
    and none: "\<forall>k. \<not> expired n te k" and new: "\<not> has_key (cache n) key"
  shows "\<exists>n'. CacheNode_set n key val ttl_arg te now = Inr n' \<and>
           cache n' = cache n @ [(key, val)]"
proof (cases "max_size n \<le> int (length (cache n))")
  case True
  let ?n1 = "foldl CacheNode_invalidate n (map fst (filter (\<lambda>(key, expiry). expiry \<le> te) (ttl n)))"
  from none have "filter (\<lambda>(k, v). \<not> expired n te k) (cache n) = cache n"
    by (simp add: filter_id_conv split_def)
  with evict_ttl[OF pol inv, of te] have e: "CacheNode_evict n te = Inr ?n1" and c: "cache ?n1 = cache n"
    by simp_all
  from new c have "AList.update key val (cache ?n1) = cache n @ [(key, val)]"
    by (simp add: update_new_key has_key_def)
  with True e show ?thesis
    by (simp add: set_at_capacity set_metadata_fields)
next
  case False
  from new have "AList.update key val (cache n) = cache n @ [(key, val)]"
    by (simp add: update_new_key has_key_def)
  with False show ?thesis by (simp add: CacheNode_set_def set_metadata_fields)
qed

subsection \<open>C3: TTL eviction removes expired entries only\<close>

text \<open>
  C3. On a TTL shard \<^verbatim>\<open>_evict\<close> keeps exactly the entries that are not expired at its
  clock reading (and their expiry timestamps). So when the shard is full, nothing is
  expired and the key is new, \<^verbatim>\<open>set\<close> appends the entry and the shard holds
  capacity + 1 entries; such a state is reached from the constructor: a shard of
  capacity 1 after \<^verbatim>\<open>set(A,1,ttl=5)\<close> at 0, then \<^verbatim>\<open>set(B,2)\<close> at 1.
\<close>

theorem C3_ttl_evicts_only_expired:
  "(eviction_policy n = ''TTL'' \<and> node_inv n \<longrightarrow>
      (\<exists>n'. CacheNode_evict n t = Inr n' \<and>
         cache n' = filter (\<lambda>(k, v). \<not> expired n t k) (cache n) \<and>
         ttl n' = filter (\<lambda>(k, e). \<not> expired n t k) (ttl n))) \<and>
   (eviction_policy n = ''TTL'' \<and> node_inv n \<and> int (length (cache n)) = max_size n \<and>
    (\<forall>k. \<not> expired n te k) \<and> \<not> has_key (cache n) key \<longrightarrow>
      (\<exists>n'. CacheNode_set n key val ttl_arg te now = Inr n' \<and>
         cache n' = cache n @ [(key, val)] \<and> int (length (cache n')) = max_size n' + 1)) \<and>
   (\<exists>n0 n1.
      run_ops (CacheNode_init ''node1'' ''TTL'' 1) [OpSet ''A'' ''1'' (Some 5) 0 0] = Inr n0 \<and>
      int (length (cache n0)) = max_size n0 \<and> (\<forall>k. \<not> expired n0 1 k) \<and>
      \<not> has_key (cache n0) ''B'' \<and>
      CacheNode_set n0 ''B'' ''2'' None 1 1 = Inr n1 \<and>
      cache n1 = [(''A'', ''1''), (''B'', ''2'')] \<and> int (length (cache n1)) = max_size n1 + 1)"
proof (intro conjI impI)
  assume a: "eviction_policy n = ''TTL'' \<and> node_inv n"
  then have pol: "eviction_policy n = ''TTL''" and inv: "node_inv n" by simp_all
  from evict_ttl[OF pol inv, of t]
  show "\<exists>n'. CacheNode_evict n t = Inr n' \<and>
         cache n' = filter (\<lambda>(k, v). \<not> expired n t k) (cache n) \<and>
         ttl n' = filter (\<lambda>(k, e). \<not> expired n t k) (ttl n)"
    by simp
next
  assume a: "eviction_policy n = ''TTL'' \<and> node_inv n \<and> int (length (cache n)) = max_size n \<and>
    (\<forall>k. \<not> expired n te k) \<and> \<not> has_key (cache n) key"
  then have pol: "eviction_policy n = ''TTL''" and inv: "node_inv n"
    and none: "\<forall>k. \<not> expired n te k" and new: "\<not> has_key (cache n) key"
    and full: "int (length (cache n)) = max_size n" by simp_all
  from set_ttl_nothing_expired[OF pol inv none new, of val ttl_arg now] obtain n' where
    s: "CacheNode_set n key val ttl_arg te now = Inr n'" and c: "cache n' = cache n @ [(key, val)]"
    by blast
  from set_fields(2)[OF s] c full have "int (length (cache n')) = max_size n' + 1" by simp
  with s c show "\<exists>n'. CacheNode_set n key val ttl_arg te now = Inr n' \<and>
         cache n' = cache n @ [(key, val)] \<and> int (length (cache n')) = max_size n' + 1"
    by blast
next
  show "\<exists>n0 n1.
      run_ops (CacheNode_init ''node1'' ''TTL'' 1) [OpSet ''A'' ''1'' (Some 5) 0 0] = Inr n0 \<and>
      int (length (cache n0)) = max_size n0 \<and> (\<forall>k. \<not> expired n0 1 k) \<and>
      \<not> has_key (cache n0) ''B'' \<and>
      CacheNode_set n0 ''B'' ''2'' None 1 1 = Inr n1 \<and>
      cache n1 = [(''A'', ''1''), (''B'', ''2'')] \<and> int (length (cache n1)) = max_size n1 + 1"
    by (simp add: node_defs expired_def)
qed

text \<open>The theorem at the full TTL example: eviction at 7 removes A, a set at 4 removes nothing.\<close>

theorem C3_witness:
  "eviction_policy ttl_example = ''TTL'' \<and> node_inv ttl_example \<and>
   int (length (cache ttl_example)) = max_size ttl_example \<and>
   (\<forall>k. \<not> expired ttl_example 4 k) \<and> \<not> has_key (cache ttl_example) ''D'' \<and>
   (\<exists>n'. CacheNode_evict ttl_example 7 = Inr n' \<and>
      cache n' = [(''B'', ''2''), (''C'', ''3'')] \<and> ttl n' = [(''B'', 10)]) \<and>
   (\<exists>n'. CacheNode_set ttl_example ''D'' ''4'' None 4 4 = Inr n' \<and>
      cache n' = [(''A'', ''1''), (''B'', ''2''), (''C'', ''3''), (''D'', ''4'')] \<and>
      int (length (cache n')) = max_size n' + 1)"
proof -
  have p: "eviction_policy ttl_example = ''TTL''" and i: "node_inv ttl_example"
    and f: "int (length (cache ttl_example)) = max_size ttl_example"
    and e: "\<forall>k. \<not> expired ttl_example 4 k" and k: "\<not> has_key (cache ttl_example) ''D''"
    by (simp_all add: ttl_example_def node_inv_def expired_def has_key_def)
  note inst = C3_ttl_evicts_only_expired[of ttl_example 7 4 "''D''" "''4''" None 4]
  from inst p i have "\<exists>n'. CacheNode_evict ttl_example 7 = Inr n' \<and>
      cache n' = [(''B'', ''2''), (''C'', ''3'')] \<and> ttl n' = [(''B'', 10)]"
    by (auto simp: ttl_example_def expired_def)
  moreover from inst p i f e k have "\<exists>n'. CacheNode_set ttl_example ''D'' ''4'' None 4 4 = Inr n' \<and>
      cache n' = [(''A'', ''1''), (''B'', ''2''), (''C'', ''3''), (''D'', ''4'')] \<and>
      int (length (cache n')) = max_size n' + 1"
    by (auto simp: ttl_example_def)
  ultimately show ?thesis using p i f e k by blast
qed

lemma update_present_keys: "k \<in> fst ` set d \<Longrightarrow> map fst (AList.update k v d) = map fst d"
  by (simp add: AList.update_keys)

lemma set_present_below_capacity:
  assumes "has_key (cache n) k" and "int (length (cache n)) < max_size n"
  shows "\<exists>n'. CacheNode_set n k v ttl_arg te now = Inr n' \<and>
           cache n' = AList.update k v (cache n) \<and> map_of (cache n') k = Some v \<and>
           map fst (cache n') = map fst (cache n) \<and> length (cache n') = length (cache n)"
proof -
  let ?n' = "set_metadata (n\<lparr>cache := AList.update k v (cache n)\<rparr>) k ttl_arg now"
  from assms(2) have "CacheNode_set n k v ttl_arg te now = Inr ?n'"
    by (rule set_below_capacity)
  moreover have "cache ?n' = AList.update k v (cache n)" by (simp add: set_metadata_fields)
  moreover have "map_of (AList.update k v (cache n)) k = Some v" by (simp add: AList.update_conv')
  moreover from assms(1) have "map fst (AList.update k v (cache n)) = map fst (cache n)"
    by (simp add: update_present_keys has_key_def)
  moreover from assms(1) have "length (AList.update k v (cache n)) = length (cache n)"
    by (simp add: length_update has_key_def)
  ultimately show ?thesis by simp
qed

lemma overwrite_after_victim:
  assumes d: "distinct (map fst c)" and hv: "victim \<in> fst ` set c" and hk: "k \<in> fst ` set c"
  shows "map_of (AList.update k v (AList.delete victim c)) k = Some v \<and>
         (victim = k \<or>
          victim \<notin> fst ` set (AList.update k v (AList.delete victim c)) \<and>
          Suc (length (AList.update k v (AList.delete victim c))) = length c)"
proof -
  have m: "map_of (AList.update k v (AList.delete victim c)) k = Some v"
    by (simp add: AList.update_conv')
  have "victim \<notin> fst ` set (AList.update k v (AList.delete victim c)) \<and>
        Suc (length (AList.update k v (AList.delete victim c))) = length c"
    if ne: "victim \<noteq> k"
  proof -
    from ne hk have "k \<in> fst ` set (AList.delete victim c)" by (auto simp: dom_delete)
    then have "length (AList.update k v (AList.delete victim c)) = length (AList.delete victim c)"
      by (simp add: length_update)
    moreover from hv have "Suc (length (AList.delete victim c)) = length c"
      by (rule length_delete[OF d])
    moreover from ne have "victim \<notin> fst ` set (AList.update k v (AList.delete victim c))"
      by (simp add: AList.dom_update dom_delete)
    ultimately show ?thesis by simp
  qed
  with m show ?thesis by blast
qed

lemma set_present_full_lru:
  assumes inv: "node_inv n" and pol: "eviction_policy n = ''LRU''"
    and pos: "0 < max_size n" and full: "max_size n \<le> int (length (cache n))"
    and hk: "has_key (cache n) k"
  shows "\<exists>victim tv pre post n'.
           access_times n = pre @ (victim, tv) # post \<and>
           (\<forall>p \<in> set pre. tv < snd p) \<and> (\<forall>p \<in> set post. tv \<le> snd p) \<and>
           has_key (cache n) victim \<and>
           CacheNode_set n k v ttl_arg te now = Inr n' \<and>
           cache n' = AList.update k v (AList.delete victim (cache n)) \<and>
           map_of (cache n') k = Some v \<and>
           (victim = k \<or> \<not> has_key (cache n') victim \<and> Suc (length (cache n')) = length (cache n))"
proof -
  from pos full have ne: "cache n \<noteq> []" by auto
  from inv have d: "distinct (map fst (cache n))" by (simp add: node_inv_def)
  from set_full_lru[OF inv pol full ne, of k v ttl_arg te now] obtain victim tv pre post where
    sp: "access_times n = pre @ (victim, tv) # post"
    and pre: "\<forall>p \<in> set pre. tv < snd p" and post: "\<forall>p \<in> set post. tv \<le> snd p"
    and hv: "has_key (cache n) victim"
    and s: "CacheNode_set n k v ttl_arg te now =
             Inr (n\<lparr>cache := AList.update k v (AList.delete victim (cache n)),
                    access_times := AList.update k now (AList.delete victim (access_times n))\<rparr>)"
    by blast
  let ?n' = "n\<lparr>cache := AList.update k v (AList.delete victim (cache n)),
                access_times := AList.update k now (AList.delete victim (access_times n))\<rparr>"
  have c: "cache ?n' = AList.update k v (AList.delete victim (cache n))" by simp
  from overwrite_after_victim[OF d, of victim k v] hv hk
  have "map_of (cache ?n') k = Some v \<and>
        (victim = k \<or> \<not> has_key (cache ?n') victim \<and> Suc (length (cache ?n')) = length (cache n))"
    by (simp add: has_key_def)
  with sp pre post hv s c show ?thesis by blast
qed

lemma set_present_full_lfu:
  assumes inv: "node_inv n" and pol: "eviction_policy n = ''LFU''"
    and pos: "0 < max_size n" and full: "max_size n \<le> int (length (cache n))"
    and hk: "has_key (cache n) k"
  shows "\<exists>victim c pre post n'.
           access_counts n = pre @ (victim, c) # post \<and>
           (\<forall>p \<in> set pre. c < snd p) \<and> (\<forall>p \<in> set post. c \<le> snd p) \<and>
           has_key (cache n) victim \<and>
           CacheNode_set n k v ttl_arg te now = Inr n' \<and>
           cache n' = AList.update k v (AList.delete victim (cache n)) \<and>
           map_of (cache n') k = Some v \<and>
           (victim = k \<or> \<not> has_key (cache n') victim \<and> Suc (length (cache n')) = length (cache n))"
proof -
  from pos full have ne: "cache n \<noteq> []" by auto
  from inv have d: "distinct (map fst (cache n))" by (simp add: node_inv_def)
  from set_full_lfu[OF inv pol full ne, of k v ttl_arg te now] obtain victim c pre post where
    sp: "access_counts n = pre @ (victim, c) # post"
    and pre: "\<forall>p \<in> set pre. c < snd p" and post: "\<forall>p \<in> set post. c \<le> snd p"
    and hv: "has_key (cache n) victim"
    and s: "CacheNode_set n k v ttl_arg te now =
             Inr (n\<lparr>cache := AList.update k v (AList.delete victim (cache n)),
                    access_counts := AList.update k 1 (AList.delete victim (access_counts n))\<rparr>)"
    by blast
  let ?n' = "n\<lparr>cache := AList.update k v (AList.delete victim (cache n)),
                access_counts := AList.update k 1 (AList.delete victim (access_counts n))\<rparr>"
  have c: "cache ?n' = AList.update k v (AList.delete victim (cache n))" by simp
  from overwrite_after_victim[OF d, of victim k v] hv hk
  have "map_of (cache ?n') k = Some v \<and>
        (victim = k \<or> \<not> has_key (cache ?n') victim \<and> Suc (length (cache ?n')) = length (cache n))"
    by (simp add: has_key_def)
  with sp pre post hv s c show ?thesis by blast
qed

lemma set_full_ttl:
  assumes inv: "node_inv n" and pol: "eviction_policy n = ''TTL''"
    and full: "max_size n \<le> int (length (cache n))"
  shows "\<exists>n'. CacheNode_set n k v ttl_arg te now = Inr n' \<and>
           cache n' = AList.update k v (filter (\<lambda>(k', v'). \<not> expired n te k') (cache n))"
  using evict_ttl[OF pol inv, of te] full
  by (simp add: set_at_capacity set_metadata_fields)

subsection \<open>C4: overwriting a stored key\<close>

text \<open>
  C4 (amended). On a shard that holds \<open>k\<close> and has fewer entries than its capacity,
  \<^verbatim>\<open>set(k, v)\<close> succeeds under any policy, replaces the value and leaves the keys, their
  order and their number unchanged. At or above capacity \<^verbatim>\<open>_evict\<close> runs although the key
  is stored: an LRU (LFU) shard first removes the policy's victim, which is the first
  key, in stored order, whose timestamp (counter) is the smallest, and when the victim
  is another key the shard ends with one entry fewer; a TTL shard first removes every
  expired entry.
\<close>

theorem C4_overwrite_below_capacity:
  "(has_key (cache n) k \<and> int (length (cache n)) < max_size n \<longrightarrow>
      (\<exists>n'. CacheNode_set n k v ttl_arg te now = Inr n' \<and>
         cache n' = AList.update k v (cache n) \<and> map_of (cache n') k = Some v \<and>
         map fst (cache n') = map fst (cache n) \<and> length (cache n') = length (cache n))) \<and>
   (node_inv n \<and> eviction_policy n = ''LRU'' \<and>
    0 < max_size n \<and> max_size n \<le> int (length (cache n)) \<and> has_key (cache n) k \<longrightarrow>
      (\<exists>victim tv pre post n'.
         access_times n = pre @ (victim, tv) # post \<and>
         (\<forall>p \<in> set pre. tv < snd p) \<and> (\<forall>p \<in> set post. tv \<le> snd p) \<and>
         has_key (cache n) victim \<and>
         CacheNode_set n k v ttl_arg te now = Inr n' \<and>
         cache n' = AList.update k v (AList.delete victim (cache n)) \<and>
         map_of (cache n') k = Some v \<and>
         (victim = k \<or> \<not> has_key (cache n') victim \<and> Suc (length (cache n')) = length (cache n)))) \<and>
   (node_inv n \<and> eviction_policy n = ''LFU'' \<and>
    0 < max_size n \<and> max_size n \<le> int (length (cache n)) \<and> has_key (cache n) k \<longrightarrow>
      (\<exists>victim c pre post n'.
         access_counts n = pre @ (victim, c) # post \<and>
         (\<forall>p \<in> set pre. c < snd p) \<and> (\<forall>p \<in> set post. c \<le> snd p) \<and>
         has_key (cache n) victim \<and>
         CacheNode_set n k v ttl_arg te now = Inr n' \<and>
         cache n' = AList.update k v (AList.delete victim (cache n)) \<and>
         map_of (cache n') k = Some v \<and>
         (victim = k \<or> \<not> has_key (cache n') victim \<and> Suc (length (cache n')) = length (cache n)))) \<and>
   (node_inv n \<and> eviction_policy n = ''TTL'' \<and> max_size n \<le> int (length (cache n)) \<and>
    has_key (cache n) k \<longrightarrow>
      (\<exists>n'. CacheNode_set n k v ttl_arg te now = Inr n' \<and>
         cache n' = AList.update k v (filter (\<lambda>(k', v'). \<not> expired n te k') (cache n))))"
proof (intro conjI impI)
  assume "has_key (cache n) k \<and> int (length (cache n)) < max_size n"
  then show "\<exists>n'. CacheNode_set n k v ttl_arg te now = Inr n' \<and>
         cache n' = AList.update k v (cache n) \<and> map_of (cache n') k = Some v \<and>
         map fst (cache n') = map fst (cache n) \<and> length (cache n') = length (cache n)"
    using set_present_below_capacity[of n k v ttl_arg te now] by simp
next
  assume a: "node_inv n \<and> eviction_policy n = ''LRU'' \<and>
    0 < max_size n \<and> max_size n \<le> int (length (cache n)) \<and> has_key (cache n) k"
  then have "node_inv n" "eviction_policy n = ''LRU''"
    "0 < max_size n" "max_size n \<le> int (length (cache n))" "has_key (cache n) k" by simp_all
  then show "\<exists>victim tv pre post n'.
         access_times n = pre @ (victim, tv) # post \<and>
         (\<forall>p \<in> set pre. tv < snd p) \<and> (\<forall>p \<in> set post. tv \<le> snd p) \<and>
         has_key (cache n) victim \<and>
         CacheNode_set n k v ttl_arg te now = Inr n' \<and>
         cache n' = AList.update k v (AList.delete victim (cache n)) \<and>
         map_of (cache n') k = Some v \<and>
         (victim = k \<or> \<not> has_key (cache n') victim \<and> Suc (length (cache n')) = length (cache n))"
    by (rule set_present_full_lru)
next
  assume a: "node_inv n \<and> eviction_policy n = ''LFU'' \<and>
    0 < max_size n \<and> max_size n \<le> int (length (cache n)) \<and> has_key (cache n) k"
  then have "node_inv n" "eviction_policy n = ''LFU''"
    "0 < max_size n" "max_size n \<le> int (length (cache n))" "has_key (cache n) k" by simp_all
  then show "\<exists>victim c pre post n'.
         access_counts n = pre @ (victim, c) # post \<and>
         (\<forall>p \<in> set pre. c < snd p) \<and> (\<forall>p \<in> set post. c \<le> snd p) \<and>
         has_key (cache n) victim \<and>
         CacheNode_set n k v ttl_arg te now = Inr n' \<and>
         cache n' = AList.update k v (AList.delete victim (cache n)) \<and>
         map_of (cache n') k = Some v \<and>
         (victim = k \<or> \<not> has_key (cache n') victim \<and> Suc (length (cache n')) = length (cache n))"
    by (rule set_present_full_lfu)
next
  assume "node_inv n \<and> eviction_policy n = ''TTL'' \<and> max_size n \<le> int (length (cache n)) \<and>
    has_key (cache n) k"
  then show "\<exists>n'. CacheNode_set n k v ttl_arg te now = Inr n' \<and>
         cache n' = AList.update k v (filter (\<lambda>(k', v'). \<not> expired n te k') (cache n))"
    using set_full_ttl[of n k v ttl_arg te now] by simp
qed

text \<open>
  C4 as stated fails on the LRU example, which is full and holds A: \<^verbatim>\<open>set(A,9)\<close> evicts B
  and leaves one entry.
\<close>

theorem C4_counterexample:
  "run_ops (CacheNode_init ''node2'' ''LRU'' 2)
     [OpSet ''A'' ''1'' None 0 1, OpSet ''B'' ''2'' None 1 2, OpGet ''A'' 3] = Inr lru_example \<and>
   has_key (cache lru_example) ''A'' \<and>
   int (length (cache lru_example)) = max_size lru_example \<and>
   cache lru_example = [(''A'', ''1''), (''B'', ''2'')] \<and>
   CacheNode_set lru_example ''A'' ''9'' None 4 4 =
     Inr (lru_example\<lparr>cache := [(''A'', ''9'')], access_times := [(''A'', 4)]\<rparr>)"
  by (simp add: node_defs lru_example_def)

text \<open>
  The amended C4 at the LRU example (with room, and full: the victim is B, the cache
  ends as A alone), at the LFU example (the victim is A itself) and at the TTL example.
\<close>

theorem C4_witness:
  "has_key (cache (lru_example\<lparr>max_size := 5\<rparr>)) ''A'' \<and>
   int (length (cache (lru_example\<lparr>max_size := 5\<rparr>))) < max_size (lru_example\<lparr>max_size := 5\<rparr>) \<and>
   (\<exists>n'. CacheNode_set (lru_example\<lparr>max_size := 5\<rparr>) ''A'' ''9'' None 4 4 = Inr n' \<and>
      cache n' = [(''A'', ''9''), (''B'', ''2'')]) \<and>
   node_inv lru_example \<and> eviction_policy lru_example = ''LRU'' \<and> 0 < max_size lru_example \<and>
   max_size lru_example \<le> int (length (cache lru_example)) \<and> has_key (cache lru_example) ''A'' \<and>
   (\<exists>n'. CacheNode_set lru_example ''A'' ''9'' None 4 4 = Inr n' \<and>
      cache n' = [(''A'', ''9'')] \<and> \<not> has_key (cache n') ''B'' \<and>
      Suc (length (cache n')) = length (cache lru_example)) \<and>
   node_inv lfu_example \<and> eviction_policy lfu_example = ''LFU'' \<and> 0 < max_size lfu_example \<and>
   max_size lfu_example \<le> int (length (cache lfu_example)) \<and> has_key (cache lfu_example) ''A'' \<and>
   (\<exists>n'. CacheNode_set lfu_example ''A'' ''9'' None 4 4 = Inr n' \<and>
      cache n' = [(''B'', ''2''), (''A'', ''9'')]) \<and>
   node_inv ttl_example \<and> eviction_policy ttl_example = ''TTL'' \<and>
   max_size ttl_example \<le> int (length (cache ttl_example)) \<and> has_key (cache ttl_example) ''C'' \<and>
   (\<exists>n'. CacheNode_set ttl_example ''C'' ''9'' None 7 7 = Inr n' \<and>
      cache n' = [(''B'', ''2''), (''C'', ''9'')])"
proof -
  have a: "has_key (cache (lru_example\<lparr>max_size := 5\<rparr>)) ''A'' \<and>
      int (length (cache (lru_example\<lparr>max_size := 5\<rparr>))) < max_size (lru_example\<lparr>max_size := 5\<rparr>)"
    by (simp add: lru_example_def has_key_def)
  have b: "node_inv lru_example \<and> eviction_policy lru_example = ''LRU'' \<and>
      0 < max_size lru_example \<and> max_size lru_example \<le> int (length (cache lru_example)) \<and>
      has_key (cache lru_example) ''A''"
    by (simp add: lru_example_inv) (simp add: lru_example_def has_key_def)
  have f: "node_inv lfu_example \<and> eviction_policy lfu_example = ''LFU'' \<and>
      0 < max_size lfu_example \<and> max_size lfu_example \<le> int (length (cache lfu_example)) \<and>
      has_key (cache lfu_example) ''A''"
    by (simp add: lfu_example_def node_inv_def has_key_def)
  have c: "node_inv ttl_example \<and> eviction_policy ttl_example = ''TTL'' \<and>
      max_size ttl_example \<le> int (length (cache ttl_example)) \<and> has_key (cache ttl_example) ''C''"
    by (simp add: ttl_example_def node_inv_def has_key_def)
  from C4_overwrite_below_capacity[of "lru_example\<lparr>max_size := 5\<rparr>" "''A''" "''9''" None 4 4] a
  have a': "\<exists>n'. CacheNode_set (lru_example\<lparr>max_size := 5\<rparr>) ''A'' ''9'' None 4 4 = Inr n' \<and>
      cache n' = [(''A'', ''9''), (''B'', ''2'')]"
    by (auto simp: lru_example_def)
  from C4_overwrite_below_capacity[of lru_example "''A''" "''9''" None 4 4] b
  obtain victim tv pre post n' where
    sp: "access_times lru_example = pre @ (victim, tv) # post"
    and pre: "\<forall>p \<in> set pre. tv < snd p" and post: "\<forall>p \<in> set post. tv \<le> snd p"
    and s: "CacheNode_set lru_example ''A'' ''9'' None 4 4 = Inr n'"
    and cn: "cache n' = AList.update ''A'' ''9'' (AList.delete victim (cache lru_example))"
    and l: "victim = ''A'' \<or> \<not> has_key (cache n') victim \<and>
              Suc (length (cache n')) = length (cache lru_example)"
    by blast
  have sp': "access_times lru_example = [(''A'', 3)] @ (''B'', 2) # []"
    by (simp add: lru_example_def)
  have "\<forall>p \<in> set [(''A'', 3::real)]. 2 < snd p" "\<forall>p \<in> set ([]::(string \<times> real) list). 2 \<le> snd p"
    by simp_all
  from first_min_unique[OF sp pre post sp' this] have vB: "victim = ''B''" by simp
  with cn have "cache n' = [(''A'', ''9'')]" by (simp add: lru_example_def)
  moreover from l vB have "\<not> has_key (cache n') ''B'' \<and> Suc (length (cache n')) = length (cache lru_example)"
    by simp
  ultimately have b': "\<exists>n'. CacheNode_set lru_example ''A'' ''9'' None 4 4 = Inr n' \<and>
      cache n' = [(''A'', ''9'')] \<and> \<not> has_key (cache n') ''B'' \<and>
      Suc (length (cache n')) = length (cache lru_example)"
    using s by blast
  from C4_overwrite_below_capacity[of lfu_example "''A''" "''9''" None 4 4] f
  obtain victim' c' pre' post' m' where
    fsp: "access_counts lfu_example = pre' @ (victim', c') # post'"
    and fpre: "\<forall>p \<in> set pre'. c' < snd p" and fpost: "\<forall>p \<in> set post'. c' \<le> snd p"
    and fs: "CacheNode_set lfu_example ''A'' ''9'' None 4 4 = Inr m'"
    and fcn: "cache m' = AList.update ''A'' ''9'' (AList.delete victim' (cache lfu_example))"
    by blast
  have fsp': "access_counts lfu_example = [] @ (''A'', 1) # [(''B'', 1)]"
    by (simp add: lfu_example_def)
  have "\<forall>p \<in> set ([]::(string \<times> int) list). 1 < snd p" "\<forall>p \<in> set [(''B'', 1::int)]. 1 \<le> snd p"
    by simp_all
  from first_min_unique[OF fsp fpre fpost fsp' this] have "victim' = ''A''" by simp
  with fcn have "cache m' = [(''B'', ''2''), (''A'', ''9'')]" by (simp add: lfu_example_def)
  with fs have f': "\<exists>n'. CacheNode_set lfu_example ''A'' ''9'' None 4 4 = Inr n' \<and>
      cache n' = [(''B'', ''2''), (''A'', ''9'')]"
    by blast
  from C4_overwrite_below_capacity[of ttl_example "''C''" "''9''" None 7 7] c
  have c': "\<exists>n'. CacheNode_set ttl_example ''C'' ''9'' None 7 7 = Inr n' \<and>
      cache n' = [(''B'', ''2''), (''C'', ''9'')]"
    by (auto simp: ttl_example_def expired_def)
  from a b f c a' b' f' c' show ?thesis by blast
qed

subsection \<open>C5: lazy expiry in get\<close>

text \<open>
  C5. \<^verbatim>\<open>get\<close> treats an entry as expired only when the clock reading is strictly after the
  expiry timestamp, while \<^verbatim>\<open>_evict\<close> removes it already at the expiry timestamp. For a key
  set with ttl 5 at clock reading 0, \<^verbatim>\<open>get\<close> at 5 returns the value and keeps the entry,
  \<^verbatim>\<open>_evict\<close> at 5 removes it, and \<^verbatim>\<open>get\<close> at 6 returns absent and removes it.
\<close>

theorem C5_get_at_expiry_instant:
  "run_ops (CacheNode_init ''node1'' ''TTL'' 10) [OpSet ''k'' ''v'' (Some 5) 0 0] =
     Inr ttl_single_example \<and>
   map_of (ttl ttl_single_example) ''k'' = Some 5 \<and>
   CacheNode_get ttl_single_example ''k'' 5 = Inr (ttl_single_example, Some ''v'') \<and>
   CacheNode_evict ttl_single_example 5 = Inr (ttl_single_example\<lparr>cache := [], ttl := []\<rparr>) \<and>
   CacheNode_get ttl_single_example ''k'' 6 = Inr (ttl_single_example\<lparr>cache := [], ttl := []\<rparr>, None)"
  by (simp add: node_defs ttl_single_example_def)

lemma set_ignores_ttl_arg:
  "eviction_policy n = ''LRU'' \<or> eviction_policy n = ''LFU'' \<Longrightarrow>
   CacheNode_set n key val ttl_arg te now = CacheNode_set n key val None te now"
  by (auto simp: CacheNode_set_def set_metadata_def evict_fields split: sum.splits if_splits)

lemma get_after_set:
  assumes s: "CacheNode_set n k v ttl_arg te now = Inr n'" and pol: "eviction_policy n \<noteq> ''TTL''"
  shows "\<exists>m. CacheNode_get n' k t = Inr (m, Some v)"
proof -
  from s obtain n1 where
    n': "n' = set_metadata (n1\<lparr>cache := AList.update k v (cache n1)\<rparr>) k ttl_arg now"
    by (auto simp: CacheNode_set_def split: sum.splits)
  have c: "cache n' = AList.update k v (cache n1)" by (simp add: n' set_metadata_fields)
  then have hk: "has_key (cache n') k" and m: "map_of (cache n') k = Some v"
    by (simp_all add: has_key_def AList.dom_update AList.update_conv')
  from set_fields(1)[OF s] pol have p: "eviction_policy n' \<noteq> ''TTL''" by simp
  show ?thesis
  proof (cases "eviction_policy n' = ''LFU''")
    case True
    then have "eviction_policy n1 = ''LFU''" by (simp add: n' set_metadata_fields)
    then have "map_of (access_counts n') k = Some 1"
      by (simp add: n' set_metadata_def AList.update_conv')
    with True hk m p show ?thesis by (simp add: CacheNode_get_def)
  next
    case False
    with hk m p show ?thesis by (simp add: CacheNode_get_def)
  qed
qed

subsection \<open>C10: the ttl argument under LRU and LFU\<close>

text \<open>
  C10. On an LRU or LFU shard \<^verbatim>\<open>set\<close> with any ttl argument does what \<^verbatim>\<open>set\<close> without one
  does. On such a shard in a state within its positive capacity the call succeeds, the
  expiry dict is unchanged (it is empty), and \<^verbatim>\<open>get\<close> of the key on the resulting state
  returns the stored value at every clock reading.
\<close>

theorem C10_ttl_argument_ignored:
  "(eviction_policy n = ''LRU'' \<or> eviction_policy n = ''LFU'' \<longrightarrow>
      CacheNode_set n key val ttl_arg te now = CacheNode_set n key val None te now) \<and>
   (bounded_node n \<longrightarrow>
      (\<exists>n'. CacheNode_set n key val ttl_arg te now = Inr n' \<and> ttl n' = ttl n \<and> ttl n' = [] \<and>
         (\<forall>t. \<exists>m. CacheNode_get n' key t = Inr (m, Some val))))"
proof (intro conjI impI)
  assume "eviction_policy n = ''LRU'' \<or> eviction_policy n = ''LFU''"
  then show "CacheNode_set n key val ttl_arg te now = CacheNode_set n key val None te now"
    by (rule set_ignores_ttl_arg)
next
  assume b: "bounded_node n"
  from set_bounded[OF b, of key val ttl_arg te now] obtain n' where
    s: "CacheNode_set n key val ttl_arg te now = Inr n'" and b': "bounded_node n'" by blast
  from b have t: "ttl n = []" and p: "eviction_policy n \<noteq> ''TTL''"
    by (auto simp: bounded_node_def node_inv_def)
  from b' have t': "ttl n' = []" by (auto simp: bounded_node_def node_inv_def)
  from get_after_set[OF s p] have "\<forall>t. \<exists>m. CacheNode_get n' key t = Inr (m, Some val)" by blast
  with s t t' show "\<exists>n'. CacheNode_set n key val ttl_arg te now = Inr n' \<and> ttl n' = ttl n \<and> ttl n' = [] \<and>
         (\<forall>t. \<exists>m. CacheNode_get n' key t = Inr (m, Some val))"
    by simp
qed

text \<open>The theorem at the LRU example and ttl 5.\<close>

theorem C10_witness:
  "eviction_policy lru_example = ''LRU'' \<and> bounded_node lru_example \<and>
   CacheNode_set lru_example ''C'' ''3'' (Some 5) 4 4 = CacheNode_set lru_example ''C'' ''3'' None 4 4 \<and>
   (\<exists>n'. CacheNode_set lru_example ''C'' ''3'' (Some 5) 4 4 = Inr n' \<and> ttl n' = [] \<and>
      (\<forall>t. \<exists>m. CacheNode_get n' ''C'' t = Inr (m, Some ''3'')))"
proof -
  have p: "eviction_policy lru_example = ''LRU''" by (simp add: lru_example_def)
  have b: "bounded_node lru_example"
    by (simp add: bounded_node_def lru_example_inv) (simp add: lru_example_def)
  from C10_ttl_argument_ignored[of lru_example "''C''" "''3''" "Some 5" 4 4] p b
  show ?thesis by blast
qed

subsection \<open>C2: locating a key on the ring\<close>

lemma dict_getitem_present:
  "k \<in> fst ` set d \<Longrightarrow> \<exists>v. dict_getitem d k = Inr v \<and> map_of d k = Some v"
proof -
  assume "k \<in> fst ` set d"
  then obtain v where "map_of d k = Some v"
    by (metis domD dom_map_of_conv_image_fst)
  then show ?thesis by (simp add: dict_getitem_def)
qed

lemma get_node_scan_none:
  "\<forall>k \<in> set ks. k < h \<Longrightarrow> get_node_scan nm h ks = None"
  by (induction ks) auto

lemma get_node_scan_first:
  assumes "sorted ks" and "\<exists>k \<in> set ks. h \<le> k"
  shows "get_node_scan nm h ks = Some (dict_getitem nm (Min {k \<in> set ks. h \<le> k}))"
  using assms
proof (induction ks)
  case Nil
  then show ?case by simp
next
  case (Cons a ks)
  show ?case
  proof (cases "h \<le> a")
    case True
    have "Min {k \<in> set (a # ks). h \<le> k} = a"
    proof (rule Min_eqI)
      show "finite {k \<in> set (a # ks). h \<le> k}" by simp
      show "a \<in> {k \<in> set (a # ks). h \<le> k}" using True by simp
      fix y assume "y \<in> {k \<in> set (a # ks). h \<le> k}"
      with Cons.prems(1) show "a \<le> y" by auto
    qed
    with True show ?thesis by simp
  next
    case False
    then have eq: "{k \<in> set (a # ks). h \<le> k} = {k \<in> set ks. h \<le> k}" by auto
    from False Cons.prems(2) have ex: "\<exists>k \<in> set ks. h \<le> k" by auto
    from Cons.prems(1) have "sorted ks" by simp
    from Cons.IH[OF this ex] False eq show ?thesis by simp
  qed
qed

lemma sorted_head_Min:
  assumes "sorted (a # ks)"
  shows "Min (set (a # ks)) = a"
proof (rule Min_eqI)
  show "finite (set (a # ks))" by simp
  show "a \<in> set (a # ks)" by simp
  fix y assume "y \<in> set (a # ks)"
  with assms show "a \<le> y" by auto
qed

lemma get_node_successor:
  assumes "node_map dc \<noteq> []"
  shows "\<exists>r. DistributedCache_get_node sha256 dc key = Inr r \<and>
           (if \<exists>k \<in> fst ` set (node_map dc). DistributedCache_hash sha256 key \<le> k
            then map_of (node_map dc)
                   (Min {k \<in> fst ` set (node_map dc). DistributedCache_hash sha256 key \<le> k}) = Some r
            else map_of (node_map dc) (Min (fst ` set (node_map dc))) = Some r)"
proof -
  let ?h = "DistributedCache_hash sha256 key"
  let ?K = "fst ` set (node_map dc)"
  let ?ks = "sort (map fst (node_map dc))"
  have set_ks: "set ?ks = ?K" by simp
  have srt: "sorted ?ks" by simp
  show ?thesis
  proof (cases "\<exists>k \<in> ?K. ?h \<le> k")
    case True
    let ?m = "Min {k \<in> ?K. ?h \<le> k}"
    from True have ex: "\<exists>k \<in> set ?ks. ?h \<le> k" by simp
    from get_node_scan_first[OF srt ex, of "node_map dc"]
    have sc: "get_node_scan (node_map dc) ?h ?ks = Some (dict_getitem (node_map dc) ?m)"
      by simp
    have "?m \<in> {k \<in> ?K. ?h \<le> k}"
      using True by (intro Min_in) auto
    then have "?m \<in> ?K" by simp
    from dict_getitem_present[OF this] obtain r where
      "dict_getitem (node_map dc) ?m = Inr r" "map_of (node_map dc) ?m = Some r" by blast
    with sc True show ?thesis
      by (simp add: DistributedCache_get_node_def Let_def)
  next
    case False
    then have "\<forall>k \<in> set ?ks. k < ?h" by auto
    then have sc: "get_node_scan (node_map dc) ?h ?ks = None"
      by (rule get_node_scan_none)
    from assms have "?ks \<noteq> []" by (metis set_ks empty_is_image set_empty)
    then obtain a rest where ks: "?ks = a # rest" by (cases ?ks) auto
    from srt ks have "sorted (a # rest)" by simp
    then have "Min (set (a # rest)) = a" by (rule sorted_head_Min)
    with ks set_ks have mn: "Min ?K = a" by metis
    from ks have "a \<in> set ?ks" by simp
    then have "a \<in> ?K" by simp
    from dict_getitem_present[OF this] obtain r where
      "dict_getitem (node_map dc) a = Inr r" "map_of (node_map dc) a = Some r" by blast
    with sc ks mn False show ?thesis
      by (simp add: DistributedCache_get_node_def Let_def)
  qed
qed

text \<open>
  C2. On a non-empty ring \<^verbatim>\<open>_get_node\<close> returns, for every key, the shard stored under the
  smallest ring hash value that is at least the key's hash (computed by \<^verbatim>\<open>_hash\<close>, as
  for the ring); when the key's hash is above every ring hash value it returns the
  shard stored under the smallest ring hash value. \<^verbatim>\<open>_get_node\<close> reads the ring and the key
  only and changes nothing, so the same key on the same ring gives the same shard.
\<close>

theorem C2_locate_returns_successor:
  assumes "node_map dc \<noteq> []"
  shows "\<exists>r. DistributedCache_get_node sha256 dc key = Inr r \<and>
           (if \<exists>k \<in> fst ` set (node_map dc). DistributedCache_hash sha256 key \<le> k
            then map_of (node_map dc)
                   (Min {k \<in> fst ` set (node_map dc). DistributedCache_hash sha256 key \<le> k}) = Some r
            else map_of (node_map dc) (Min (fst ` set (node_map dc))) = Some r)"
  using assms by (rule get_node_successor)

text \<open>
  The theorem at the example ring and digest: hash 15 goes to the shard under 20, hash 25
  wraps around to the shard under 10.
\<close>

theorem C2_witness:
  "node_map ring_example \<noteq> [] \<and>
   DistributedCache_hash digest_example ''abc'' = 15 \<and>
   DistributedCache_get_node digest_example ring_example ''abc'' = Inr 1 \<and>
   DistributedCache_hash digest_example ''zz'' = 25 \<and>
   DistributedCache_get_node digest_example ring_example ''zz'' = Inr 0"
proof -
  have ne: "node_map ring_example \<noteq> []" by (simp add: ring_example_def)
  have h1: "DistributedCache_hash digest_example ''abc'' = 15"
    and h2: "DistributedCache_hash digest_example ''zz'' = 25"
    by (simp_all add: DistributedCache_hash_def digest_example_def)
  have K: "fst ` set (node_map ring_example) = {10, 20}" by (auto simp: ring_example_def)
  have s1: "{k \<in> {10, 20}. (15::int) \<le> k} = {20}" by auto
  from C2_locate_returns_successor[OF ne, of digest_example "''abc''"] obtain r where
    g: "DistributedCache_get_node digest_example ring_example ''abc'' = Inr r"
    and m: "map_of (node_map ring_example) (Min {k \<in> {10, 20}. (15::int) \<le> k}) = Some r"
    unfolding h1 K by (auto split: if_splits)
  from m have "r = 1" unfolding s1 by (simp add: ring_example_def)
  with g have a: "DistributedCache_get_node digest_example ring_example ''abc'' = Inr 1" by simp
  from C2_locate_returns_successor[OF ne, of digest_example "''zz''"] obtain r' where
    g': "DistributedCache_get_node digest_example ring_example ''zz'' = Inr r'"
    and m': "map_of (node_map ring_example) (Min {10, 20}) = Some r'"
    unfolding h2 K by (auto split: if_splits)
  from m' have "r' = 0" by (simp add: ring_example_def)
  with g' have b: "DistributedCache_get_node digest_example ring_example ''zz'' = Inr 0" by simp
  from ne h1 h2 a b show ?thesis by blast
qed

subsection \<open>Building the ring\<close>

lemma inner_loop_points:
  "foldl (\<lambda>nm' name. AList.update (DistributedCache_hash sha256 name) node nm') nm names =
   foldl insert_point nm (map (\<lambda>name. (DistributedCache_hash sha256 name, node)) names)"
  by (induction names arbitrary: nm) simp_all

lemma create_node_map_points_acc:
  "foldl (\<lambda>nm node.
            foldl (\<lambda>nm' name. AList.update (DistributedCache_hash sha256 name) node nm')
                  nm (virtual_names (node_id (st node)))) acc ns =
   foldl insert_point acc (virtual_points sha256 st ns)"
  by (induction ns arbitrary: acc) (simp_all add: virtual_points_def inner_loop_points)

lemma create_node_map_points:
  "DistributedCache_create_node_map sha256 st ns = foldl insert_point [] (virtual_points sha256 st ns)"
  by (simp add: DistributedCache_create_node_map_def create_node_map_points_acc)

lemma insert_points_keys:
  "fst ` set (foldl insert_point acc ps) = fst ` set acc \<union> fst ` set ps"
  by (induction ps arbitrary: acc) (auto simp: AList.dom_update)

lemma insert_points_distinct:
  "distinct (map fst acc) \<Longrightarrow> distinct (map fst (foldl insert_point acc ps))"
  by (induction ps arbitrary: acc) (simp_all add: AList.distinct_update)

lemma insert_points_map_of:
  "map_of (foldl insert_point acc ps) = map_of acc ++ map_of (rev ps)"
proof (induction ps arbitrary: acc)
  case Nil
  show ?case by simp
next
  case (Cons p ps)
  have "map_of (foldl insert_point (insert_point acc p) ps) =
        map_of (insert_point acc p) ++ map_of (rev ps)"
    by (rule Cons.IH)
  also have "\<dots> = map_of acc ++ map_of (rev (p # ps))"
    by (cases p) (simp add: AList.update_conv' map_add_def fun_eq_iff split: option.splits)
  finally show ?case by simp
qed

lemma length_virtual_names: "length (virtual_names nid) = 3"
  by (simp add: virtual_names_def)

lemma length_virtual_points: "length (virtual_points sha256 st ns) = 3 * length ns"
  by (induction ns) (simp_all add: virtual_points_def length_virtual_names)

lemma create_node_map_distinct:
  "distinct (map fst (DistributedCache_create_node_map sha256 st ns))"
  unfolding create_node_map_points by (rule insert_points_distinct) simp

lemma create_node_map_keys:
  "fst ` set (DistributedCache_create_node_map sha256 st ns) = fst ` set (virtual_points sha256 st ns)"
  unfolding create_node_map_points by (simp add: insert_points_keys)

lemma length_create_node_map:
  "length (DistributedCache_create_node_map sha256 st ns) = card (fst ` set (virtual_points sha256 st ns))"
proof -
  have "card (set (map fst (DistributedCache_create_node_map sha256 st ns))) =
        length (map fst (DistributedCache_create_node_map sha256 st ns))"
    by (rule distinct_card) (rule create_node_map_distinct)
  then show ?thesis by (simp add: create_node_map_keys)
qed

subsection \<open>C8: the ring holds one entry per hash value\<close>

text \<open>
  C8 (amended). The ring built by \<^verbatim>\<open>_create_node_map\<close> has one entry per distinct hash
  value of the virtual points, mapped to the last shard assigned under that hash: a
  virtual point whose hash equals an earlier one replaces the earlier shard. Hence a ring
  built from S shards has at most 3 S entries, and exactly 3 S entries precisely when
  the 3 S hash values are pairwise distinct.
\<close>

theorem C8_ring_one_entry_per_hash:
  "distinct (map fst (DistributedCache_create_node_map sha256 st ns)) \<and>
   fst ` set (DistributedCache_create_node_map sha256 st ns) = fst ` set (virtual_points sha256 st ns) \<and>
   map_of (DistributedCache_create_node_map sha256 st ns) = map_of (rev (virtual_points sha256 st ns)) \<and>
   length (DistributedCache_create_node_map sha256 st ns) = card (fst ` set (virtual_points sha256 st ns)) \<and>
   length (DistributedCache_create_node_map sha256 st ns) \<le> 3 * length ns \<and>
   (length (DistributedCache_create_node_map sha256 st ns) = 3 * length ns) =
     distinct (map fst (virtual_points sha256 st ns))"
proof -
  let ?ring = "DistributedCache_create_node_map sha256 st ns"
  let ?ps = "virtual_points sha256 st ns"
  have r: "?ring = foldl insert_point [] ?ps" by (rule create_node_map_points)
  have d: "distinct (map fst ?ring)" by (rule create_node_map_distinct)
  have k: "fst ` set ?ring = fst ` set ?ps" by (rule create_node_map_keys)
  have m: "map_of ?ring = map_of (rev ?ps)" unfolding r by (simp add: insert_points_map_of)
  have l: "length ?ring = card (fst ` set ?ps)" by (rule length_create_node_map)
  have "card (set (map fst ?ps)) \<le> length (map fst ?ps)" by (rule card_length)
  with l have le: "length ?ring \<le> 3 * length ns" by (simp add: length_virtual_points)
  have "(card (set (map fst ?ps)) = length (map fst ?ps)) = distinct (map fst ?ps)"
    using card_distinct distinct_card by blast
  with l have e: "(length ?ring = 3 * length ns) = distinct (map fst ?ps)"
    by (simp add: length_virtual_points)
  from d k m l le e show ?thesis by blast
qed

text \<open>
  C8 as stated fails for two shards with the same \<^verbatim>\<open>node_id\<close>, whatever the digest: their
  virtual points have the same names, so the ring has at most 3 entries, not 6.
\<close>

theorem C8_counterexample:
  "\<forall>sha256.
     length (DistributedCache_create_node_map sha256
               (\<lambda>r. CacheNode_init ''node1'' ''LRU'' 10) [0, 1]) \<le> 3 \<and>
     length (DistributedCache_create_node_map sha256
               (\<lambda>r. CacheNode_init ''node1'' ''LRU'' 10) [0, 1]) \<noteq> 2 * 3"
proof
  fix sha256 :: digest
  let ?st = "\<lambda>r::ref. CacheNode_init ''node1'' ''LRU'' 10"
  let ?ring = "DistributedCache_create_node_map sha256 ?st [0, 1]"
  have "fst ` set (virtual_points sha256 ?st [0, 1]) =
        DistributedCache_hash sha256 ` {''node1_0'', ''node1_1'', ''node1_2''}"
    by (simp add: virtual_points_def virtual_names_def CacheNode_init_def upt_rec image_Un insert_commute)
  moreover have "card (DistributedCache_hash sha256 ` {''node1_0'', ''node1_1'', ''node1_2''}) \<le>
      card {''node1_0'', ''node1_1'', ''node1_2''}"
    by (rule card_image_le) simp
  moreover have "length ?ring = card (fst ` set (virtual_points sha256 ?st [0, 1]))"
    by (rule length_create_node_map)
  ultimately have "length ?ring \<le> 3" by simp
  then show "length ?ring \<le> 3 \<and> length ?ring \<noteq> 2 * 3" by simp
qed

subsection \<open>C7: publish and subscribe\<close>

lemma subscribers_of_subscribe:
  "subscribers_of (PubSubSystem_subscribe ps channel node) channel = subscribers_of ps channel @ [node]"
proof (cases "has_key (subscribers ps) channel")
  case True
  then obtain l where "map_of (subscribers ps) channel = Some l"
    unfolding has_key_def by (metis domD dom_map_of_conv_image_fst)
  with True show ?thesis
    by (simp add: subscribers_of_def PubSubSystem_subscribe_def AList.map_of_map_entry)
next
  case False
  then have "map_of (subscribers ps) channel = None"
    unfolding has_key_def by (simp add: map_of_eq_None_iff)
  with False show ?thesis
    by (simp add: subscribers_of_def PubSubSystem_subscribe_def AList.map_of_map_entry
        AList.update_conv')
qed

lemma subscribers_of_subscribe_other:
  "channel' \<noteq> channel \<Longrightarrow>
   subscribers_of (PubSubSystem_subscribe ps channel node) channel' = subscribers_of ps channel'"
  by (simp add: subscribers_of_def PubSubSystem_subscribe_def AList.map_of_map_entry
      AList.update_conv' Let_def)

lemma subscribers_of_subscribe_all:
  "subscribers_of (foldl (\<lambda>p r. PubSubSystem_subscribe p channel r) ps rs) channel =
     subscribers_of ps channel @ rs"
  by (induction rs arbitrary: ps) (simp_all add: subscribers_of_subscribe)

lemma subscribers_of_init: "subscribers_of PubSubSystem_init channel = []"
  by (simp add: subscribers_of_def PubSubSystem_init_def)

lemma publish_loop_calls:
  "snd (publish_loop ns key (st, cs)) = cs @ map (\<lambda>r. (r, key)) ns"
  by (induction ns arbitrary: st cs) simp_all

lemma publish_loop_foldl:
  "fst (publish_loop ns key (st, cs)) =
     foldl (\<lambda>s r. s(r := CacheNode_invalidate (s r) key)) st ns"
  by (induction ns arbitrary: st cs) simp_all

lemma publish_calls:
  "snd (PubSubSystem_publish ps channel key (st, cs)) =
     cs @ map (\<lambda>r. (r, key)) (subscribers_of ps channel)"
  by (simp add: PubSubSystem_publish_def subscribers_of_def publish_loop_calls split: option.splits)

lemma publish_foldl:
  "fst (PubSubSystem_publish ps channel key (st, cs)) =
     foldl (\<lambda>s r. s(r := CacheNode_invalidate (s r) key)) st (subscribers_of ps channel)"
  by (simp add: PubSubSystem_publish_def subscribers_of_def publish_loop_foldl split: option.splits)

lemma publish_no_subscribers:
  "subscribers_of ps channel = [] \<Longrightarrow> PubSubSystem_publish ps channel key w = w"
  by (simp add: PubSubSystem_publish_def subscribers_of_def split: option.splits)

lemma invalidate_absent: "\<not> has_key (cache (CacheNode_invalidate n key)) key"
  by (simp add: has_key_def invalidate_keys)

lemma invalidate_idem:
  "CacheNode_invalidate (CacheNode_invalidate n key) key = CacheNode_invalidate n key"
  using invalidate_absent[of n key] by (simp add: CacheNode_invalidate_def[of "CacheNode_invalidate n key"])

lemma publish_loop_at:
  "fst (publish_loop ns key (st, cs)) r =
     (if r \<in> set ns then CacheNode_invalidate (st r) key else st r)"
  by (induction ns arbitrary: st cs) (auto simp: invalidate_idem)

lemma publish_at:
  "fst (PubSubSystem_publish ps channel key (st, cs)) r =
     (if r \<in> set (subscribers_of ps channel) then CacheNode_invalidate (st r) key else st r)"
  by (simp add: PubSubSystem_publish_def subscribers_of_def publish_loop_at split: option.splits)

lemma get_absent: "\<not> has_key (cache n) key \<Longrightarrow> CacheNode_get n key t = Inr (n, None)"
  by (simp add: CacheNode_get_def)

text \<open>
  C7. \<^verbatim>\<open>subscribe\<close> appends the shard to the channel's list and leaves the other
  channels alone, so the list is the sequence of the shards subscribed to the channel,
  in subscription order, and a shard subscribed twice stands twice in it. The calls
  \<^verbatim>\<open>publish(channel, key)\<close> makes are exactly \<^verbatim>\<open>invalidate(key)\<close> on each element of the
  channel's list, from first to last, one call per element: after subscribing the
  shards \<open>rs\<close> to a channel of a new bus, publish makes the calls on \<open>rs\<close> in that order.
  On a channel without subscribers it makes no call and changes nothing. Afterwards the
  key is absent from every subscribed shard (\<^verbatim>\<open>get\<close> returns absent), and every other
  shard is unchanged.
\<close>

theorem C7_publish_invalidates_subscribers_in_order:
  "subscribers_of (PubSubSystem_subscribe ps channel node) channel =
     subscribers_of ps channel @ [node] \<and>
   (channel' \<noteq> channel \<longrightarrow>
      subscribers_of (PubSubSystem_subscribe ps channel node) channel' = subscribers_of ps channel') \<and>
   subscribers_of (PubSubSystem_subscribe (PubSubSystem_subscribe ps channel node) channel node) channel =
     subscribers_of ps channel @ [node, node] \<and>
   subscribers_of (foldl (\<lambda>p r. PubSubSystem_subscribe p channel r) PubSubSystem_init rs) channel = rs \<and>
   snd (PubSubSystem_publish ps channel key (st, cs)) =
     cs @ map (\<lambda>r. (r, key)) (subscribers_of ps channel) \<and>
   snd (PubSubSystem_publish (foldl (\<lambda>p r. PubSubSystem_subscribe p channel r) PubSubSystem_init rs)
          channel key (st, [])) = map (\<lambda>r. (r, key)) rs \<and>
   fst (PubSubSystem_publish ps channel key (st, cs)) =
     foldl (\<lambda>s r. s(r := CacheNode_invalidate (s r) key)) st (subscribers_of ps channel) \<and>
   (subscribers_of ps channel = [] \<longrightarrow> PubSubSystem_publish ps channel key (st, cs) = (st, cs)) \<and>
   (\<forall>r \<in> set (subscribers_of ps channel).
      \<not> has_key (cache (fst (PubSubSystem_publish ps channel key (st, cs)) r)) key \<and>
      CacheNode_get (fst (PubSubSystem_publish ps channel key (st, cs)) r) key t =
        Inr (fst (PubSubSystem_publish ps channel key (st, cs)) r, None)) \<and>
   (\<forall>r. r \<notin> set (subscribers_of ps channel) \<longrightarrow>
      fst (PubSubSystem_publish ps channel key (st, cs)) r = st r)"
proof (intro conjI impI ballI allI)
  show "subscribers_of (PubSubSystem_subscribe ps channel node) channel =
     subscribers_of ps channel @ [node]"
    by (rule subscribers_of_subscribe)
  show "subscribers_of (PubSubSystem_subscribe ps channel node) channel' = subscribers_of ps channel'"
    if "channel' \<noteq> channel"
    using that by (rule subscribers_of_subscribe_other)
  show "subscribers_of (PubSubSystem_subscribe (PubSubSystem_subscribe ps channel node) channel node) channel =
     subscribers_of ps channel @ [node, node]"
    by (simp add: subscribers_of_subscribe)
  show all: "subscribers_of (foldl (\<lambda>p r. PubSubSystem_subscribe p channel r) PubSubSystem_init rs) channel = rs"
    by (simp add: subscribers_of_subscribe_all subscribers_of_init)
  show "snd (PubSubSystem_publish ps channel key (st, cs)) =
     cs @ map (\<lambda>r. (r, key)) (subscribers_of ps channel)"
    by (rule publish_calls)
  show "snd (PubSubSystem_publish (foldl (\<lambda>p r. PubSubSystem_subscribe p channel r) PubSubSystem_init rs)
          channel key (st, [])) = map (\<lambda>r. (r, key)) rs"
    by (simp add: publish_calls all)
  show "fst (PubSubSystem_publish ps channel key (st, cs)) =
     foldl (\<lambda>s r. s(r := CacheNode_invalidate (s r) key)) st (subscribers_of ps channel)"
    by (rule publish_foldl)
  show "PubSubSystem_publish ps channel key (st, cs) = (st, cs)" if "subscribers_of ps channel = []"
    using that by (rule publish_no_subscribers)
  show "\<not> has_key (cache (fst (PubSubSystem_publish ps channel key (st, cs)) r)) key"
    if "r \<in> set (subscribers_of ps channel)" for r
    using that by (simp add: publish_at invalidate_absent)
  then show "CacheNode_get (fst (PubSubSystem_publish ps channel key (st, cs)) r) key t =
        Inr (fst (PubSubSystem_publish ps channel key (st, cs)) r, None)"
    if "r \<in> set (subscribers_of ps channel)" for r
    using that by (simp add: get_absent)
  show "fst (PubSubSystem_publish ps channel key (st, cs)) r = st r"
    if "r \<notin> set (subscribers_of ps channel)" for r
    using that by (simp add: publish_at)
qed

text \<open>
  The theorem at the example bus and store: shard 1 subscribed, then shard 2, then
  shard 1 again; publish calls invalidate on 1, on 2 and on 1 again.
\<close>

theorem C7_witness:
  "subscribers_of pubsub_example ''inv'' = [1, 2, 1] \<and>
   subscribers_of pubsub_example ''other'' = [] \<and>
   ''other'' \<noteq> ''inv'' \<and>
   snd (PubSubSystem_publish pubsub_example ''inv'' ''k'' (store_example, [])) =
     [(1, ''k''), (2, ''k''), (1, ''k'')] \<and>
   PubSubSystem_publish pubsub_example ''other'' ''k'' (store_example, []) = (store_example, []) \<and>
   has_key (cache (store_example 1)) ''k'' \<and> has_key (cache (store_example 2)) ''k'' \<and>
   \<not> has_key (cache (fst (PubSubSystem_publish pubsub_example ''inv'' ''k'' (store_example, [])) 1)) ''k'' \<and>
   \<not> has_key (cache (fst (PubSubSystem_publish pubsub_example ''inv'' ''k'' (store_example, [])) 2)) ''k'' \<and>
   CacheNode_get (fst (PubSubSystem_publish pubsub_example ''inv'' ''k'' (store_example, [])) 2) ''k'' 0 =
     Inr (fst (PubSubSystem_publish pubsub_example ''inv'' ''k'' (store_example, [])) 2, None) \<and>
   fst (PubSubSystem_publish pubsub_example ''inv'' ''k'' (store_example, [])) 3 = store_example 3"
proof -
  note inst = C7_publish_invalidates_subscribers_in_order
  have e: "pubsub_example = foldl (\<lambda>p r. PubSubSystem_subscribe p ''inv'' r) PubSubSystem_init [1, 2, 1]"
    by (simp add: pubsub_example_def)
  from inst[of PubSubSystem_init "''inv''" 0 "''inv''" "[1, 2, 1]"]
  have s: "subscribers_of pubsub_example ''inv'' = [1, 2, 1]"
    unfolding e by blast
  have ne: "''other'' \<noteq> ''inv''" by simp
  have o: "subscribers_of pubsub_example ''other'' = []"
    using inst[of PubSubSystem_init "''inv''" 1 "''other''"]
      inst[of "PubSubSystem_subscribe PubSubSystem_init ''inv'' 1" "''inv''" 2 "''other''"]
      inst[of "PubSubSystem_subscribe (PubSubSystem_subscribe PubSubSystem_init ''inv'' 1) ''inv'' 2"
        "''inv''" 1 "''other''"] ne
    by (simp add: pubsub_example_def subscribers_of_init)
  have h: "has_key (cache (store_example 1)) ''k'' \<and> has_key (cache (store_example 2)) ''k''"
    by (simp add: store_example_def ttl_single_example_def has_key_def)
  note i1 = inst[of pubsub_example "''inv''" 0 "''inv''" "[]" "''k''" store_example "[]" 0]
  note i2 = inst[of pubsub_example "''other''" 0 "''other''" "[]" "''k''" store_example "[]" 0]
  from i1 have "snd (PubSubSystem_publish pubsub_example ''inv'' ''k'' (store_example, [])) =
     [] @ map (\<lambda>r. (r, ''k'')) (subscribers_of pubsub_example ''inv'')"
    by blast
  with s have c: "snd (PubSubSystem_publish pubsub_example ''inv'' ''k'' (store_example, [])) =
     [(1, ''k''), (2, ''k''), (1, ''k'')]"
    by simp
  from i2 o
  have p: "PubSubSystem_publish pubsub_example ''other'' ''k'' (store_example, []) = (store_example, [])"
    by blast
  from i1
  have ball: "\<forall>r \<in> set (subscribers_of pubsub_example ''inv'').
      \<not> has_key (cache (fst (PubSubSystem_publish pubsub_example ''inv'' ''k'' (store_example, [])) r)) ''k'' \<and>
      CacheNode_get (fst (PubSubSystem_publish pubsub_example ''inv'' ''k'' (store_example, [])) r) ''k'' 0 =
        Inr (fst (PubSubSystem_publish pubsub_example ''inv'' ''k'' (store_example, [])) r, None)"
    and rest: "\<forall>r. r \<notin> set (subscribers_of pubsub_example ''inv'') \<longrightarrow>
      fst (PubSubSystem_publish pubsub_example ''inv'' ''k'' (store_example, [])) r = store_example r"
    by blast+
  have m: "(1::nat) \<in> set (subscribers_of pubsub_example ''inv'')"
    "(2::nat) \<in> set (subscribers_of pubsub_example ''inv'')"
    "(3::nat) \<notin> set (subscribers_of pubsub_example ''inv'')"
    by (simp_all add: s)
  from ball m(1) have q1:
    "\<not> has_key (cache (fst (PubSubSystem_publish pubsub_example ''inv'' ''k'' (store_example, [])) 1)) ''k''"
    by blast
  from ball m(2) have q2:
    "\<not> has_key (cache (fst (PubSubSystem_publish pubsub_example ''inv'' ''k'' (store_example, [])) 2)) ''k'' \<and>
     CacheNode_get (fst (PubSubSystem_publish pubsub_example ''inv'' ''k'' (store_example, [])) 2) ''k'' 0 =
     Inr (fst (PubSubSystem_publish pubsub_example ''inv'' ''k'' (store_example, [])) 2, None)"
    by blast
  from rest m(3) have q3:
    "fst (PubSubSystem_publish pubsub_example ''inv'' ''k'' (store_example, [])) 3 = store_example 3"
    by blast
  from s o ne c h p q1 q2 q3 show ?thesis by blast
qed

subsection \<open>C9: construction does not validate\<close>

lemma create_node_map_Nil: "DistributedCache_create_node_map sha256 st [] = []"
  by (simp add: DistributedCache_create_node_map_def)

lemma create_node_map_nonempty:
  assumes "ns \<noteq> []"
  shows "DistributedCache_create_node_map sha256 st ns \<noteq> []"
proof -
  from assms have "virtual_points sha256 st ns \<noteq> []"
    using length_virtual_points[of sha256 st ns] by (cases ns) auto
  then have "fst ` set (virtual_points sha256 st ns) \<noteq> {}" by simp
  then have "fst ` set (DistributedCache_create_node_map sha256 st ns) \<noteq> {}"
    by (simp add: create_node_map_keys)
  then show ?thesis by auto
qed

lemma get_node_empty_ring:
  "node_map dc = [] \<Longrightarrow> DistributedCache_get_node sha256 dc key = Inl IndexError"
  by (simp add: DistributedCache_get_node_def)

lemma set_nonpositive_capacity:
  assumes "C \<le> 0" and "p = ''LRU'' \<or> p = ''LFU''"
  shows "CacheNode_set (CacheNode_init nid p C) key val ttl_arg te now = Inl ValueError"
  using assms
  by (auto simp: CacheNode_set_def CacheNode_init_def CacheNode_evict_def py_min_key_def)

text \<open>
  C9 (amended). Neither precondition is checked at construction. A cache built from an
  empty shard list has an empty ring, and each later \<^verbatim>\<open>get\<close>, \<^verbatim>\<open>set\<close> and \<^verbatim>\<open>invalidate\<close> on
  it raises IndexError inside \<^verbatim>\<open>_get_node\<close>; a cache built from a non-empty list locates
  every key. A shard constructed with a non-positive capacity and policy LRU or LFU
  raises ValueError inside its \<^verbatim>\<open>set\<close>, while \<^verbatim>\<open>get\<close> and \<^verbatim>\<open>invalidate\<close> on it return
  normally.
\<close>

theorem C9_preconditions_not_checked_at_construction:
  "node_map (DistributedCache_init sha256 st []) = [] \<and>
   DistributedCache_get sha256 (DistributedCache_init sha256 st []) st' key now = Inl IndexError \<and>
   DistributedCache_set sha256 (DistributedCache_init sha256 st []) st' key val ttl_arg te now =
     Inl IndexError \<and>
   DistributedCache_invalidate sha256 (DistributedCache_init sha256 st []) st' key = Inl IndexError \<and>
   (ns \<noteq> [] \<longrightarrow>
      (\<exists>r. DistributedCache_get_node sha256 (DistributedCache_init sha256 st ns) key = Inr r)) \<and>
   (C \<le> 0 \<and> (p = ''LRU'' \<or> p = ''LFU'') \<longrightarrow>
      CacheNode_set (CacheNode_init nid p C) key val ttl_arg te now = Inl ValueError \<and>
      CacheNode_get (CacheNode_init nid p C) key now = Inr (CacheNode_init nid p C, None) \<and>
      CacheNode_invalidate (CacheNode_init nid p C) key = CacheNode_init nid p C)"
proof (intro conjI impI)
  let ?dc = "DistributedCache_init sha256 st []"
  show e: "node_map ?dc = []"
    by (simp add: DistributedCache_init_def create_node_map_Nil)
  then have g: "DistributedCache_get_node sha256 ?dc key = Inl IndexError"
    by (rule get_node_empty_ring)
  from g show "DistributedCache_get sha256 ?dc st' key now = Inl IndexError"
    by (simp add: DistributedCache_get_def)
  from g show "DistributedCache_set sha256 ?dc st' key val ttl_arg te now = Inl IndexError"
    by (simp add: DistributedCache_set_def)
  from g show "DistributedCache_invalidate sha256 ?dc st' key = Inl IndexError"
    by (simp add: DistributedCache_invalidate_def)
next
  assume "ns \<noteq> []"
  then have "node_map (DistributedCache_init sha256 st ns) \<noteq> []"
    by (simp add: DistributedCache_init_def create_node_map_nonempty)
  from get_node_successor[OF this, of sha256 key]
  show "\<exists>r. DistributedCache_get_node sha256 (DistributedCache_init sha256 st ns) key = Inr r"
    by blast
next
  assume a: "C \<le> 0 \<and> (p = ''LRU'' \<or> p = ''LFU'')"
  then show "CacheNode_set (CacheNode_init nid p C) key val ttl_arg te now = Inl ValueError"
    by (simp add: set_nonpositive_capacity)
  show "CacheNode_get (CacheNode_init nid p C) key now = Inr (CacheNode_init nid p C, None)"
    by (simp add: CacheNode_get_def CacheNode_init_def has_key_def)
  show "CacheNode_invalidate (CacheNode_init nid p C) key = CacheNode_init nid p C"
    by (simp add: CacheNode_invalidate_def CacheNode_init_def has_key_def)
qed

text \<open>The theorem at the example digest, a one-shard list and an LRU shard of capacity 0.\<close>

theorem C9_witness:
  "[0::nat] \<noteq> [] \<and>
   (\<exists>r. DistributedCache_get_node digest_example
           (DistributedCache_init digest_example store_example [0]) ''abc'' = Inr r) \<and>
   (0::int) \<le> 0 \<and>
   CacheNode_set (CacheNode_init ''node2'' ''LRU'' 0) ''k'' ''v'' None 0 0 = Inl ValueError \<and>
   CacheNode_get (CacheNode_init ''node2'' ''LRU'' 0) ''k'' 0 =
     Inr (CacheNode_init ''node2'' ''LRU'' 0, None) \<and>
   DistributedCache_get digest_example (DistributedCache_init digest_example store_example [])
     store_example ''abc'' 0 = Inl IndexError"
proof -
  note inst = C9_preconditions_not_checked_at_construction[of digest_example store_example
      store_example "''abc''" 0 "''v''" None 0 "[0]" 0 "''LRU''" "''node2''"]
  have a: "[0::nat] \<noteq> []" by simp
  have b: "(0::int) \<le> 0 \<and> (''LRU'' = ''LRU'' \<or> ''LRU'' = ''LFU'')" by simp
  from inst a have 1: "\<exists>r. DistributedCache_get_node digest_example
           (DistributedCache_init digest_example store_example [0]) ''abc'' = Inr r"
    by blast
  note inst2 = C9_preconditions_not_checked_at_construction[of digest_example store_example
      store_example "''k''" 0 "''v''" None 0 "[0]" 0 "''LRU''" "''node2''"]
  from inst2 b have 2: "CacheNode_set (CacheNode_init ''node2'' ''LRU'' 0) ''k'' ''v'' None 0 0 = Inl ValueError"
    and 3: "CacheNode_get (CacheNode_init ''node2'' ''LRU'' 0) ''k'' 0 =
       Inr (CacheNode_init ''node2'' ''LRU'' 0, None)"
    by blast+
  from inst have 4: "DistributedCache_get digest_example
     (DistributedCache_init digest_example store_example []) store_example ''abc'' 0 = Inl IndexError"
    by blast
  from a 1 2 3 4 show ?thesis by simp
qed

text \<open>
  C9 as stated fails: both constructions return, and the first request fails.
\<close>

theorem C9_counterexample:
  "\<forall>sha256.
     DistributedCache_init sha256 store_example [] = \<lparr>nodes = [], node_map = []\<rparr> \<and>
     DistributedCache_get sha256 \<lparr>nodes = [], node_map = []\<rparr> store_example ''driver_1'' 0 =
       Inl IndexError \<and>
     DistributedCache_set sha256 \<lparr>nodes = [], node_map = []\<rparr> store_example ''driver_1''
       ''available'' (Some 5) 0 0 = Inl IndexError \<and>
     CacheNode_init ''node2'' ''LRU'' 0 =
       \<lparr>node_id = ''node2'', max_size = 0, cache = [], eviction_policy = ''LRU'',
        access_times = [], access_counts = [], ttl = []\<rparr> \<and>
     CacheNode_set (CacheNode_init ''node2'' ''LRU'' 0) ''driver_1'' ''available'' None 0 0 =
       Inl ValueError"
  by (simp add: DistributedCache_init_def create_node_map_Nil DistributedCache_get_def
      DistributedCache_set_def DistributedCache_get_node_def CacheNode_init_def CacheNode_set_def
      CacheNode_evict_def py_min_key_def)

end
